theory Spec2Isabelle
  imports Complex_Main "HOL-Library.Multiset"
begin

section \<open>The e-mail queue of backend/emailQueue.js\<close>

text \<open>
  The class \<open>EmailQueue\<close> is event driven: synchronous blocks of JavaScript run to
  completion, and the blocks are started by callers (\<open>enqueue\<close>, \<open>clearQueue\<close>), by
  timers (\<open>setInterval\<close>, \<open>setTimeout\<close>) and by promises that settle. The embedding has
  one function for each such block, on an explicit state, and a step function that
  picks the block an event starts. What the environment decides (whether a write to
  disk succeeds, whether the mail transport delivers, the generated id) is a parameter
  of the event.
\<close>

subsection \<open>Jobs and files\<close>

text \<open>The three values the code assigns to \<open>emailItem.status\<close>.\<close>

datatype job_status = Pending | Retrying | Failed

text \<open>
  The object built in \<open>enqueue\<close>, with the fields the failure handler adds later.
  Timestamps are the clock in milliseconds.
\<close>

record job =
  job_id :: string
  email_type :: string
  email_to :: string
  subject :: string
  html :: string
  attempts :: nat
  createdAt :: nat
  status :: job_status
  lastError :: "string option"
  lastAttempt :: "nat option"

text \<open>
  The argument of \<open>enqueue\<close>, as the callers in server.js build it. Their \<open>metadata\<close>
  is carried along and never read by the queue; it is left out, as are keys that would
  overwrite \<open>id\<close> through the spread (no caller passes one).
\<close>

record emailData =
  ed_type :: string
  ed_to :: string
  ed_subject :: string
  ed_html :: string

text \<open>
  A file on disk: absent, present with content on which \<open>readFileSync\<close> or
  \<open>JSON.parse\<close> throws, or present with content that parses to what the queue writes
  there (an array of jobs for the queue file, one job for a file of a failed e-mail).
  JSON of another shape is never written by the queue and is outside the model.
\<close>

datatype 'a disk_file = Missing | Garbled | Stored 'a

datatype js_error = Error string

text \<open>
  What \<open>fs.writeFileSync\<close> does is decided by the environment: it writes, or it throws
  and leaves the file as it was, or it throws after truncating the file.
\<close>

datatype write_outcome = WriteOk | WriteFailKeep | WriteFailTruncate

text \<open>What \<open>sendEmail\<close> settles with: resolved, or rejected with a message
  (no SMTP configuration, transport error, the 60 s timeout).\<close>

datatype send_outcome = Delivered | SendFailed string

subsection \<open>The state\<close>

text \<open>
  Job objects are mutable and are passed by reference (the failure handler and the
  retry timer assign to fields of an object that the queue array may or may not hold),
  so the objects live in a store and the queue, the running invocations and the timers
  hold references into it.

  A call of \<open>processQueue\<close> that passes its guard is an episode: it is suspended either
  in \<open>await Promise.allSettled\<close>, with the invocations of \<open>processSingleEmail\<close> of its
  batch that have not settled yet, or in the two-second pause between batches.
\<close>

text \<open>
  The fields of the class are \<open>queue\<close>, \<open>processing\<close> and \<open>activeProcesses\<close>, a JavaScript
  \<open>Set\<close> of strings built from the job's id and the clock, kept as a list without
  duplicates. \<open>episodes\<close> and \<open>timers\<close> are what the runtime holds for the class: the
  suspended calls of \<open>processQueue\<close> and the pending retry timers, each with its due time
  and its job. \<open>queueFile\<close> and \<open>failedDir\<close> are the disk, \<open>now\<close> is the clock.
\<close>

type_synonym ref = nat
type_synonym processId = "string \<times> nat"
type_synonym invocation = "processId \<times> ref"

datatype episode = AwaitBatch "invocation list" | Pause nat

record state =
  heap :: "job list"
  queue :: "ref list"
  processing :: bool
  activeProcesses :: "processId list"
  episodes :: "episode list"
  timers :: "(nat \<times> ref) list"
  queueFile :: "job list disk_file"
  failedDir :: "string \<Rightarrow> job disk_file"
  now :: nat

definition retryAttempts :: nat where
  "retryAttempts = 3"

definition retryDelay :: nat where
  "retryDelay = 5000"

definition maxRetryDelay :: nat where
  "maxRetryDelay = 300000"

definition maxConcurrentEmails :: nat where
  "maxConcurrentEmails = 3"

text \<open>
  The jobs a list of references stands for. Every reference the state holds points into
  the store (part of the invariant \<open>refs_ok\<close> below), so the lookup is never out of range.
\<close>

definition deref :: "state \<Rightarrow> ref list \<Rightarrow> job list" where
  "deref s rs = map (\<lambda>r. heap s ! r) rs"

subsection \<open>The durable store\<close>

definition writeFileSync :: "write_outcome \<Rightarrow> 'a \<Rightarrow> 'a disk_file \<Rightarrow> js_error option \<times> 'a disk_file" where
  "writeFileSync w content old =
     (case w of
        WriteOk \<Rightarrow> (None, Stored content)
      | WriteFailKeep \<Rightarrow> (Some (Error ''write failed''), old)
      | WriteFailTruncate \<Rightarrow> (Some (Error ''write failed''), Garbled))"

text \<open>\<open>existsSync\<close>, \<open>readFileSync\<close> and \<open>JSON.parse\<close> on the queue file.\<close>

definition readQueueFile :: "job list disk_file \<Rightarrow> js_error + job list option" where
  "readQueueFile f =
     (case f of
        Missing \<Rightarrow> Inr None
      | Garbled \<Rightarrow> Inl (Error ''Unexpected token'')
      | Stored js \<Rightarrow> Inr (Some js))"

text \<open>\<open>loadQueue\<close>: the parsed records are fresh objects; the \<open>catch\<close> empties the queue.\<close>

definition loadQueue :: "state \<Rightarrow> state" where
  "loadQueue s =
     (case readQueueFile (queueFile s) of
        Inr None \<Rightarrow> s
      | Inr (Some js) \<Rightarrow>
          s\<lparr>heap := heap s @ js,
            queue := [length (heap s)..<length (heap s) + length js]\<rparr>
      | Inl e \<Rightarrow> s\<lparr>queue := []\<rparr>)"

text \<open>\<open>saveQueue\<close>: the \<open>catch\<close> logs the error and drops it.\<close>

definition saveQueue :: "write_outcome \<Rightarrow> state \<Rightarrow> state" where
  "saveQueue w s =
     (case writeFileSync w (deref s (queue s)) (queueFile s) of
        (err, f) \<Rightarrow> s\<lparr>queueFile := f\<rparr>)"

text \<open>\<open>saveFailedEmail\<close>: one file per job, named after its id; errors are logged and dropped.\<close>

definition saveFailedEmail :: "write_outcome \<Rightarrow> job \<Rightarrow> state \<Rightarrow> state" where
  "saveFailedEmail w emailItem s =
     (case writeFileSync w emailItem (failedDir s (job_id emailItem)) of
        (err, f) \<Rightarrow> s\<lparr>failedDir := (failedDir s)(job_id emailItem := f)\<rparr>)"

text \<open>
  The constructor: empty fields, then \<open>loadQueue\<close>; \<open>startQueueProcessor\<close> only registers
  the interval timer. The result is a sum so that a constructor that throws could be told
  from one that returns.
\<close>

definition EmailQueue_new :: "job list disk_file \<Rightarrow> (string \<Rightarrow> job disk_file) \<Rightarrow> nat \<Rightarrow> js_error + state" where
  "EmailQueue_new qf fd t =
     Inr (loadQueue \<lparr>heap = [], queue = [], processing = False, activeProcesses = [],
                     episodes = [], timers = [], queueFile = qf, failedDir = fd, now = t\<rparr>)"

subsection \<open>The worker pool\<close>

text \<open>
  \<open>processSingleEmail\<close> up to its \<open>await\<close>: the process id is the job's id and the clock,
  added to the set \<open>activeProcesses\<close>.
\<close>

definition processSingleEmail_begin :: "ref \<Rightarrow> state \<Rightarrow> invocation \<times> state" where
  "processSingleEmail_begin r s =
     (let processId = (job_id (heap s ! r), now s)
      in ((processId, r), s\<lparr>activeProcesses := List.insert processId (activeProcesses s)\<rparr>))"

text \<open>\<open>emailsToProcess.map(emailItem => this.processSingleEmail(emailItem))\<close>.\<close>

fun dispatch :: "ref list \<Rightarrow> state \<Rightarrow> invocation list \<times> state" where
  "dispatch [] s = ([], s)"
| "dispatch (r # rs) s =
     (case processSingleEmail_begin r s of
        (i, s1) \<Rightarrow> (case dispatch rs s1 of (is, s2) \<Rightarrow> (i # is, s2)))"

text \<open>
  The \<open>while\<close> loop of \<open>processQueue\<close> from its condition to the next suspension: the
  result is the batch the episode now waits for, or \<open>None\<close> when the loop is left.
\<close>

definition loop_head :: "state \<Rightarrow> invocation list option \<times> state" where
  "loop_head s =
     (if length (queue s) > 0 \<and> length (activeProcesses s) < maxConcurrentEmails then
        (let availableSlots = maxConcurrentEmails - length (activeProcesses s);
             n = min availableSlots (length (queue s));
             emailsToProcess = take n (queue s);
             s1 = s\<lparr>queue := drop n (queue s)\<rparr>
         in if length emailsToProcess = 0 then (None, s1)
            else (case dispatch emailsToProcess s1 of (invs, s2) \<Rightarrow> (Some invs, s2)))
      else (None, s))"

text \<open>\<open>processQueue\<close> from its call to its first suspension, or to its end.\<close>

definition processQueue :: "state \<Rightarrow> state" where
  "processQueue s =
     (if processing s then s
      else (case loop_head (s\<lparr>processing := True\<rparr>) of
              (Some invs, s1) \<Rightarrow> s1\<lparr>episodes := episodes s1 @ [AwaitBatch invs]\<rparr>
            | (None, s1) \<Rightarrow> s1\<lparr>processing := False\<rparr>))"

definition remove_nth :: "nat \<Rightarrow> 'a list \<Rightarrow> 'a list" where
  "remove_nth k xs = take k xs @ drop (Suc k) xs"

text \<open>Episode \<open>e\<close> is back at the loop condition: next batch, or \<open>finally\<close> and the end.\<close>

definition resume_loop :: "nat \<Rightarrow> state \<Rightarrow> state" where
  "resume_loop e s =
     (case loop_head s of
        (Some invs, s1) \<Rightarrow> s1\<lparr>episodes := (episodes s1)[e := AwaitBatch invs]\<rparr>
      | (None, s1) \<Rightarrow> s1\<lparr>episodes := remove_nth e (episodes s1), processing := False\<rparr>)"

text \<open>Episode \<open>e\<close> after \<open>await Promise.allSettled\<close>: pause when jobs are left.\<close>

definition after_batch :: "nat \<Rightarrow> state \<Rightarrow> state" where
  "after_batch e s =
     (if length (queue s) > 0 then s\<lparr>episodes := (episodes s)[e := Pause (now s + 2000)]\<rparr>
      else resume_loop e s)"

text \<open>
  \<open>Math.min(this.retryDelay * Math.pow(2, attempts - 1), this.maxRetryDelay)\<close>. The
  counter has been incremented before, so it is at least 1 where the code computes the
  delay; at 0 JavaScript's \<open>Math.pow(2, -1)\<close> is one half, which is written out.
\<close>

definition retry_delay :: "nat \<Rightarrow> nat" where
  "retry_delay a =
     (if a = 0 then min (retryDelay div 2) maxRetryDelay
      else min (retryDelay * 2 ^ (a - 1)) maxRetryDelay)"

text \<open>
  \<open>processSingleEmail\<close> after its \<open>await\<close>: the \<open>try\<close> continues or the \<open>catch\<close> runs, then
  \<open>finally\<close>. The first write outcome is that of the queue file, the second that of the
  file of a permanently failed job.
\<close>

definition processSingleEmail_settle ::
  "invocation \<Rightarrow> send_outcome \<Rightarrow> write_outcome \<Rightarrow> write_outcome \<Rightarrow> state \<Rightarrow> state" where
  "processSingleEmail_settle iv out wq wd s =
     (case iv of (processId, r) \<Rightarrow>
        (let s1 =
           (case out of
              Delivered \<Rightarrow> saveQueue wq s
            | SendFailed msg \<Rightarrow>
                (let emailItem = (heap s ! r)\<lparr>attempts := attempts (heap s ! r) + 1,
                                              lastError := Some msg,
                                              lastAttempt := Some (now s)\<rparr>;
                     s2 =
                       (if attempts emailItem \<ge> retryAttempts then
                          (let failedItem = emailItem\<lparr>status := Failed\<rparr>
                           in saveFailedEmail wd failedItem (s\<lparr>heap := (heap s)[r := failedItem]\<rparr>))
                        else
                          (let retryItem = emailItem\<lparr>status := Retrying\<rparr>;
                               delay = retry_delay (attempts retryItem)
                           in s\<lparr>heap := (heap s)[r := retryItem],
                                timers := timers s @ [(now s + delay, r)]\<rparr>))
                 in saveQueue wq s2))
         in s1\<lparr>activeProcesses := removeAll processId (activeProcesses s1)\<rparr>))"

text \<open>The callback of the retry timer.\<close>

definition retry_callback :: "ref \<Rightarrow> write_outcome \<Rightarrow> state \<Rightarrow> state" where
  "retry_callback r w s =
     (let s1 = s\<lparr>heap := (heap s)[r := (heap s ! r)\<lparr>status := Pending\<rparr>]\<rparr>;
          s2 = s1\<lparr>queue := queue s1 @ [r]\<rparr>;
          s3 = saveQueue w s2
      in if \<not> processing s3 then processQueue s3 else s3)"

subsection \<open>The queue facade\<close>

text \<open>
  \<open>enqueue\<close>: the id comes from \<open>generateId\<close> (clock and random digits), so it is an
  argument. The first component is what the caller gets: the returned id, or the
  exception thrown.
\<close>

definition enqueue :: "emailData \<Rightarrow> string \<Rightarrow> write_outcome \<Rightarrow> state \<Rightarrow> (js_error + string) \<times> state" where
  "enqueue ed gid w s =
     (let emailItem = \<lparr>job_id = gid, email_type = ed_type ed, email_to = ed_to ed,
                       subject = ed_subject ed, html = ed_html ed, attempts = 0,
                       createdAt = now s, status = Pending, lastError = None,
                       lastAttempt = None\<rparr>;
          r = length (heap s);
          s1 = s\<lparr>heap := heap s @ [emailItem], queue := queue s @ [r]\<rparr>;
          s2 = saveQueue w s1;
          s3 = (if \<not> processing s2 then processQueue s2 else s2)
      in (Inr (job_id emailItem), s3))"

text \<open>The callback of \<open>setInterval\<close> in \<open>startQueueProcessor\<close>.\<close>

definition interval_callback :: "state \<Rightarrow> state" where
  "interval_callback s =
     (if \<not> processing s \<and> length (queue s) > 0 then processQueue s else s)"

definition clearQueue :: "write_outcome \<Rightarrow> state \<Rightarrow> state" where
  "clearQueue w s = saveQueue w (s\<lparr>queue := []\<rparr>)"

record queue_status =
  queueLength :: nat
  st_processing :: bool
  st_activeProcesses :: nat
  st_maxConcurrentEmails :: nat
  pendingEmails :: nat
  retryingEmails :: nat

definition getStatus :: "state \<Rightarrow> queue_status" where
  "getStatus s =
     \<lparr>queueLength = length (queue s),
      st_processing = processing s,
      st_activeProcesses = length (activeProcesses s),
      st_maxConcurrentEmails = maxConcurrentEmails,
      pendingEmails = length (filter (\<lambda>item. status item = Pending) (deref s (queue s))),
      retryingEmails = length (filter (\<lambda>item. status item = Retrying) (deref s (queue s)))\<rparr>"

subsection \<open>Events\<close>

text \<open>
  \<open>Settle e k\<close>: the \<open>k\<close>-th unsettled invocation of episode \<open>e\<close> settles.
  \<open>BatchSettled e\<close>: all invocations of the batch have settled and the episode goes on.
  \<open>PauseElapsed e\<close>, \<open>RetryTimer k\<close>: a timer fires, never before it is due.
  \<open>Restart\<close>: the process dies and is started again on the same files.
\<close>

datatype event =
    Enqueue emailData string write_outcome
  | IntervalTick
  | Settle nat nat send_outcome write_outcome write_outcome
  | BatchSettled nat
  | PauseElapsed nat
  | RetryTimer nat write_outcome
  | ClearQueue write_outcome
  | Advance nat
  | Restart

definition settle :: "nat \<Rightarrow> nat \<Rightarrow> send_outcome \<Rightarrow> write_outcome \<Rightarrow> write_outcome \<Rightarrow> state \<Rightarrow> state option" where
  "settle e k out wq wd s =
     (if e < length (episodes s) then
        (case episodes s ! e of
           AwaitBatch invs \<Rightarrow>
             (if k < length invs then
                (let s1 = processSingleEmail_settle (invs ! k) out wq wd s
                 in Some (s1\<lparr>episodes := (episodes s1)[e := AwaitBatch (remove_nth k invs)]\<rparr>))
              else None)
         | Pause due \<Rightarrow> None)
      else None)"

definition restart :: "state \<Rightarrow> state option" where
  "restart s =
     (case EmailQueue_new (queueFile s) (failedDir s) (now s) of
        Inr s' \<Rightarrow> Some s'
      | Inl err \<Rightarrow> None)"

fun step :: "event \<Rightarrow> state \<Rightarrow> state option" where
  "step (Enqueue ed gid w) s = Some (snd (enqueue ed gid w s))"
| "step IntervalTick s = Some (interval_callback s)"
| "step (Settle e k out wq wd) s = settle e k out wq wd s"
| "step (BatchSettled e) s =
     (if e < length (episodes s) \<and> episodes s ! e = AwaitBatch [] then Some (after_batch e s)
      else None)"
| "step (PauseElapsed e) s =
     (if e < length (episodes s) then
        (case episodes s ! e of
           Pause due \<Rightarrow> if due \<le> now s then Some (resume_loop e s) else None
         | AwaitBatch invs \<Rightarrow> None)
      else None)"
| "step (RetryTimer k w) s =
     (if k < length (timers s) \<and> fst (timers s ! k) \<le> now s then
        Some (retry_callback (snd (timers s ! k)) w (s\<lparr>timers := remove_nth k (timers s)\<rparr>))
      else None)"
| "step (ClearQueue w) s = Some (clearQueue w s)"
| "step (Advance dt) s = Some (s\<lparr>now := now s + dt\<rparr>)"
| "step Restart s = restart s"

fun run :: "event list \<Rightarrow> state \<Rightarrow> state option" where
  "run [] s = Some s"
| "run (ev # evs) s = (case step ev s of None \<Rightarrow> None | Some s' \<Rightarrow> run evs s')"

text \<open>The states a run of events leads to from a given state.\<close>

inductive reach :: "state \<Rightarrow> state \<Rightarrow> bool" for s0 where
  reach_init: "reach s0 s0"
| reach_step: "reach s0 s \<Longrightarrow> step ev s = Some s' \<Longrightarrow> reach s0 s'"

subsection \<open>What the invariants speak about\<close>

fun episode_invs :: "episode \<Rightarrow> invocation list" where
  "episode_invs (AwaitBatch invs) = invs"
| "episode_invs (Pause due) = []"

text \<open>The invocations of \<open>processSingleEmail\<close> that wait for the transport: the jobs in flight.\<close>

definition in_flight :: "state \<Rightarrow> invocation list" where
  "in_flight s = concat (map episode_invs (episodes s))"

text \<open>Every place that holds a reference to a job object.\<close>

definition live_refs :: "state \<Rightarrow> ref list" where
  "live_refs s = queue s @ map snd (in_flight s) @ map snd (timers s)"

text \<open>No object is referenced twice, and every reference points into the store.\<close>

definition refs_ok :: "state \<Rightarrow> bool" where
  "refs_ok s \<longleftrightarrow> distinct (live_refs s) \<and> list_all (\<lambda>r. r < length (heap s)) (live_refs s)"

text \<open>The flag \<open>processing\<close> is set exactly while the one episode runs, and the pool is bounded.\<close>

definition sched_ok :: "state \<Rightarrow> bool" where
  "sched_ok s \<longleftrightarrow>
     (if processing s then length (episodes s) = 1 else episodes s = []) \<and>
     length (in_flight s) \<le> maxConcurrentEmails \<and>
     length (activeProcesses s) \<le> maxConcurrentEmails"

definition file_pending :: "job list disk_file \<Rightarrow> bool" where
  "file_pending f = (case f of Stored js \<Rightarrow> list_all (\<lambda>j. status j = Pending) js | _ \<Rightarrow> True)"

text \<open>
  Queued jobs, in memory and on disk, are pending; the jobs that wait for a retry timer
  carry the status \<open>Retrying\<close>.
\<close>

definition pending_ok :: "state \<Rightarrow> bool" where
  "pending_ok s \<longleftrightarrow>
     list_all (\<lambda>item. status item = Pending) (deref s (queue s)) \<and>
     file_pending (queueFile s) \<and>
     list_all (\<lambda>item. status item = Retrying) (deref s (map snd (timers s)))"

subsection \<open>Example inputs\<close>

text \<open>A fresh installation, a payload, and a burst of four jobs.\<close>

definition example_mail :: emailData where
  "example_mail = \<lparr>ed_type = ''test-email'', ed_to = ''admin'', ed_subject = ''Test'', ed_html = ''Hello''\<rparr>"

definition fresh :: state where
  "fresh = \<lparr>heap = [], queue = [], processing = False, activeProcesses = [],
             episodes = [], timers = [], queueFile = Missing, failedDir = (\<lambda>name. Missing), now = 0\<rparr>"

definition burst_trace :: "event list" where
  "burst_trace =
     [Enqueue example_mail ''a'' WriteOk, Enqueue example_mail ''b'' WriteOk,
      Enqueue example_mail ''c'' WriteOk, Enqueue example_mail ''d'' WriteOk,
      Settle 0 0 Delivered WriteOk WriteOk, BatchSettled 0, Advance 2000, PauseElapsed 0]"

definition after_burst :: state where
  "after_burst = the (run burst_trace fresh)"

text \<open>Two jobs; the first is in flight when the second arrives, and its delivery fails.\<close>

definition failure_trace :: "event list" where
  "failure_trace =
     [Enqueue example_mail ''a'' WriteOk, Enqueue example_mail ''b'' WriteOk,
      Settle 0 0 (SendFailed ''timeout'') WriteOk WriteOk]"

definition after_failure :: state where
  "after_failure = the (run failure_trace fresh)"

text \<open>One job, dispatched at once.\<close>

definition one_in_flight :: state where
  "one_in_flight = the (run [Enqueue example_mail ''a'' WriteOk] fresh)"

subsection \<open>The retry policy in the words of the specification\<close>

text \<open>
  Section 4.3: the decision is \<open>quarantine\<close> when \<open>attempts >= maxAttempts\<close>, with
  \<open>maxAttempts = 3\<close>; otherwise \<open>retry\<close> with
  \<open>delay = min(baseDelay * 2^(attempts-1), maxDelay)\<close>, \<open>baseDelay\<close> 5 s and \<open>maxDelay\<close>
  300 s, here in milliseconds and over the rationals.
\<close>

datatype decision = Quarantine | Retry rat

definition spec_nextDecision :: "nat \<Rightarrow> decision" where
  "spec_nextDecision a =
     (if a \<ge> 3 then Quarantine else Retry (min (5000 * 2 powi (int a - 1)) 300000))"

subsection \<open>Counting delivery attempts along a run\<close>

text \<open>The job and the outcome, when the event is the end of a delivery attempt.\<close>

definition attempt_of :: "event \<Rightarrow> state \<Rightarrow> (ref \<times> send_outcome) option" where
  "attempt_of ev s =
     (case ev of
        Settle e k out wq wd \<Rightarrow>
          (if e < length (episodes s) then
             (case episodes s ! e of
                AwaitBatch invs \<Rightarrow> if k < length invs then Some (snd (invs ! k), out) else None
              | Pause due \<Rightarrow> None)
           else None)
      | _ \<Rightarrow> None)"

fun attempts_in :: "(send_outcome \<Rightarrow> bool) \<Rightarrow> ref \<Rightarrow> event list \<Rightarrow> state \<Rightarrow> nat" where
  "attempts_in P r [] s = 0"
| "attempts_in P r (ev # evs) s =
     (case step ev s of
        None \<Rightarrow> 0
      | Some s' \<Rightarrow>
          (case attempt_of ev s of
             Some (r', out) \<Rightarrow> if r' = r \<and> P out then 1 else 0
           | None \<Rightarrow> 0) + attempts_in P r evs s')"

definition completed_attempts :: "ref \<Rightarrow> event list \<Rightarrow> state \<Rightarrow> nat" where
  "completed_attempts r evs s = attempts_in (\<lambda>out. True) r evs s"

definition failed_attempts :: "ref \<Rightarrow> event list \<Rightarrow> state \<Rightarrow> nat" where
  "failed_attempts r evs s = attempts_in (\<lambda>out. out \<noteq> Delivered) r evs s"

text \<open>The one job in flight fails for the first time.\<close>

definition one_failed :: state where
  "one_failed = the (run [Settle 0 0 (SendFailed ''timeout'') WriteOk WriteOk] one_in_flight)"

text \<open>The fields of the object in memory, without the files and the clock.\<close>

definition memory ::
  "state \<Rightarrow> job list \<times> ref list \<times> bool \<times> processId list \<times> episode list \<times> (nat \<times> ref) list" where
  "memory s = (heap s, queue s, processing s, activeProcesses s, episodes s, timers s)"

text \<open>A directory of failed e-mails with one parsable record and one unparsable file.\<close>

definition dead_job :: job where
  "dead_job = \<lparr>job_id = ''x'', email_type = ''test-email'', email_to = ''admin'',
               subject = ''Test'', html = ''Hello'', attempts = 3, createdAt = 0,
               status = Failed, lastError = Some ''timeout'', lastAttempt = Some 15000\<rparr>"

definition dead_letter_dir :: "string \<Rightarrow> job disk_file" where
  "dead_letter_dir = (\<lambda>name. Missing)(''x'' := Stored dead_job, ''y'' := Garbled)"

text \<open>A job fails once, the operator clears the queue, and the retry timer fires.\<close>

definition clear_trace :: "event list" where
  "clear_trace =
     [Enqueue example_mail ''a'' WriteOk, Settle 0 0 (SendFailed ''timeout'') WriteOk WriteOk,
      BatchSettled 0, ClearQueue WriteOk, Advance 5000, RetryTimer 0 WriteOk]"

text \<open>
  While the first job is in flight a second one arrives; the first fails, the episode
  pauses, dispatches the second, and the second fails too.
\<close>

definition two_failures :: "event list" where
  "two_failures =
     [Enqueue example_mail ''b'' WriteOk, Settle 0 0 (SendFailed ''timeout'') WriteOk WriteOk,
      BatchSettled 0, Advance 2000, PauseElapsed 0,
      Settle 0 0 (SendFailed ''refused'') WriteOk WriteOk]"

definition both_failed :: state where
  "both_failed = the (run two_failures one_in_flight)"

section \<open>Properties\<close>

subsection \<open>What each block changes\<close>

lemma saveQueue_fields [simp]:
  "heap (saveQueue w s) = heap s"
  "queue (saveQueue w s) = queue s"
  "processing (saveQueue w s) = processing s"
  "activeProcesses (saveQueue w s) = activeProcesses s"
  "episodes (saveQueue w s) = episodes s"
  "timers (saveQueue w s) = timers s"
  "failedDir (saveQueue w s) = failedDir s"
  "now (saveQueue w s) = now s"
  by (simp_all add: saveQueue_def split: prod.splits)

lemma saveQueue_queueFile:
  "queueFile (saveQueue w s) =
     (case w of WriteOk \<Rightarrow> Stored (deref s (queue s))
      | WriteFailKeep \<Rightarrow> queueFile s
      | WriteFailTruncate \<Rightarrow> Garbled)"
  by (simp add: saveQueue_def writeFileSync_def split: write_outcome.splits)

lemma saveFailedEmail_fields [simp]:
  "heap (saveFailedEmail w j s) = heap s"
  "queue (saveFailedEmail w j s) = queue s"
  "processing (saveFailedEmail w j s) = processing s"
  "activeProcesses (saveFailedEmail w j s) = activeProcesses s"
  "episodes (saveFailedEmail w j s) = episodes s"
  "timers (saveFailedEmail w j s) = timers s"
  "queueFile (saveFailedEmail w j s) = queueFile s"
  "now (saveFailedEmail w j s) = now s"
  by (simp_all add: saveFailedEmail_def split: prod.splits)

lemma dispatch_result:
  "\<exists>invs aps. dispatch rs s = (invs, s\<lparr>activeProcesses := aps\<rparr>) \<and> map snd invs = rs
      \<and> length aps \<le> length (activeProcesses s) + length rs"
proof (induction rs arbitrary: s)
  case Nil
  show ?case
  proof (intro exI conjI)
    show "dispatch [] s = ([], s\<lparr>activeProcesses := activeProcesses s\<rparr>)" by simp
    show "map snd ([] :: invocation list) = []" by simp
    show "length (activeProcesses s) \<le> length (activeProcesses s) + length ([] :: ref list)" by simp
  qed
next
  case (Cons r rs)
  let ?pid = "(job_id (heap s ! r), now s)"
  let ?s1 = "s\<lparr>activeProcesses := List.insert ?pid (activeProcesses s)\<rparr>"
  from Cons.IH [of ?s1] obtain invs aps where
    d: "dispatch rs ?s1 = (invs, ?s1\<lparr>activeProcesses := aps\<rparr>)" and m: "map snd invs = rs"
    and l: "length aps \<le> length (activeProcesses ?s1) + length rs" by blast
  have l1: "length (List.insert ?pid (activeProcesses s)) \<le> Suc (length (activeProcesses s))"
    by (simp add: List.insert_def)
  show ?case
  proof (intro exI conjI)
    show "dispatch (r # rs) s = ((?pid, r) # invs, s\<lparr>activeProcesses := aps\<rparr>)"
      using d by (simp add: processSingleEmail_begin_def Let_def)
    show "map snd ((?pid, r) # invs) = r # rs" using m by simp
    show "length aps \<le> length (activeProcesses s) + length (r # rs)"
      using l l1 by simp
  qed
qed

lemma loop_head_cases:
  obtains (exit) "loop_head s = (None, s)"
  | (batch) invs aps where
      "loop_head s = (Some invs, s\<lparr>queue := drop (length invs) (queue s), activeProcesses := aps\<rparr>)"
      "invs \<noteq> []" "length invs \<le> maxConcurrentEmails"
      "map snd invs = take (length invs) (queue s)" "length invs \<le> length (queue s)"
      "length aps \<le> maxConcurrentEmails"
proof (cases "length (queue s) > 0 \<and> length (activeProcesses s) < maxConcurrentEmails")
  case False
  then have "loop_head s = (None, s)" by (auto simp: loop_head_def)
  then show ?thesis by (rule exit)
next
  case True
  define n where "n = min (maxConcurrentEmails - length (activeProcesses s)) (length (queue s))"
  have n0: "0 < n" and nq: "n \<le> length (queue s)"
    and na: "n + length (activeProcesses s) \<le> maxConcurrentEmails"
    using True by (auto simp: n_def)
  let ?s1 = "s\<lparr>queue := drop n (queue s)\<rparr>"
  obtain invs aps where d: "dispatch (take n (queue s)) ?s1 = (invs, ?s1\<lparr>activeProcesses := aps\<rparr>)"
    and m: "map snd invs = take n (queue s)"
    and l: "length aps \<le> length (activeProcesses ?s1) + length (take n (queue s))"
    using dispatch_result [of "take n (queue s)" ?s1] by blast
  have len: "length invs = n" using m nq by (metis length_map length_take min.absorb2)
  have "loop_head s = (Some invs, s\<lparr>queue := drop (length invs) (queue s), activeProcesses := aps\<rparr>)"
    using True d n0 nq len by (simp add: loop_head_def Let_def n_def [symmetric])
  moreover have "invs \<noteq> []" using len n0 by auto
  moreover have "length invs \<le> maxConcurrentEmails" using len na by simp
  moreover have "map snd invs = take (length invs) (queue s)" using m len by simp
  moreover have "length invs \<le> length (queue s)" using len nq by simp
  moreover have "length aps \<le> maxConcurrentEmails" using l na nq by simp
  ultimately show ?thesis by (rule batch)
qed

lemma unset_processing: "\<not> processing s \<Longrightarrow> s\<lparr>processing := False\<rparr> = s"
  by (cases s) simp

lemma processQueue_busy: "processing s \<Longrightarrow> processQueue s = s"
  by (simp add: processQueue_def)

lemma processQueue_cases:
  assumes "\<not> processing s"
  obtains (idle) "processQueue s = s"
  | (batch) invs aps where
      "processQueue s = s\<lparr>queue := drop (length invs) (queue s), processing := True,
                           activeProcesses := aps, episodes := episodes s @ [AwaitBatch invs]\<rparr>"
      "invs \<noteq> []" "length invs \<le> maxConcurrentEmails"
      "map snd invs = take (length invs) (queue s)" "length invs \<le> length (queue s)"
      "length aps \<le> maxConcurrentEmails"
proof (cases rule: loop_head_cases [of "s\<lparr>processing := True\<rparr>"])
  case exit
  then have "processQueue s = s" using assms by (simp add: processQueue_def unset_processing)
  then show ?thesis by (rule idle)
next
  case (batch invs aps)
  have "processQueue s = s\<lparr>queue := drop (length invs) (queue s), processing := True,
                           activeProcesses := aps, episodes := episodes s @ [AwaitBatch invs]\<rparr>"
    using assms batch(1) by (simp add: processQueue_def)
  then show ?thesis using batch(2-) by (intro that(2) [of invs aps]) simp_all
qed

lemma resume_loop_cases:
  obtains (exit) "resume_loop e s = s\<lparr>episodes := remove_nth e (episodes s), processing := False\<rparr>"
  | (batch) invs aps where
      "resume_loop e s = s\<lparr>queue := drop (length invs) (queue s), activeProcesses := aps,
                            episodes := (episodes s)[e := AwaitBatch invs]\<rparr>"
      "invs \<noteq> []" "length invs \<le> maxConcurrentEmails"
      "map snd invs = take (length invs) (queue s)" "length invs \<le> length (queue s)"
      "length aps \<le> maxConcurrentEmails"
proof (cases rule: loop_head_cases [of s])
  case exit
  then have "resume_loop e s = s\<lparr>episodes := remove_nth e (episodes s), processing := False\<rparr>"
    by (simp add: resume_loop_def)
  then show ?thesis by (rule that(1))
next
  case (batch invs aps)
  have "resume_loop e s = s\<lparr>queue := drop (length invs) (queue s), activeProcesses := aps,
                            episodes := (episodes s)[e := AwaitBatch invs]\<rparr>"
    using batch(1) by (simp add: resume_loop_def)
  then show ?thesis using batch(2-) by (intro that(2) [of invs aps]) simp_all
qed

subsection \<open>One episode at a time\<close>

lemma sched_ok_shape:
  assumes "sched_ok s" "e < length (episodes s)"
  shows "e = 0" "episodes s = [episodes s ! 0]" "processing s"
proof -
  have p: "processing s" using assms by (auto simp: sched_ok_def split: if_splits)
  then have l: "length (episodes s) = 1" using assms by (simp add: sched_ok_def)
  show "e = 0" using assms(2) l by simp
  show "episodes s = [episodes s ! 0]" using l by (cases "episodes s") auto
  show "processing s" by (rule p)
qed

lemma sched_ok_cong:
  "processing s' = processing s \<Longrightarrow> episodes s' = episodes s \<Longrightarrow>
   activeProcesses s' = activeProcesses s \<Longrightarrow> sched_ok s' = sched_ok s"
  by (simp add: sched_ok_def in_flight_def)

lemma sched_ok_processQueue:
  assumes "sched_ok s"
  shows "sched_ok (processQueue s)"
proof (cases "processing s")
  case True
  then show ?thesis using assms by (simp add: processQueue_busy)
next
  case False
  then have e: "episodes s = []" using assms by (simp add: sched_ok_def)
  from False show ?thesis
  proof (cases rule: processQueue_cases)
    case idle
    then show ?thesis using assms by simp
  next
    case (batch invs aps)
    then show ?thesis using e by (simp add: sched_ok_def in_flight_def)
  qed
qed

lemma sched_ok_resume_loop:
  assumes "sched_ok s" "e < length (episodes s)" "episode_invs (episodes s ! e) = []"
  shows "sched_ok (resume_loop e s)"
proof -
  note sh = sched_ok_shape [OF assms(1,2)]
  show ?thesis
  proof (cases rule: resume_loop_cases [of e s])
    case exit
    have "remove_nth e (episodes s) = []"
      using sh(1,2) by (metis append_Nil drop0 drop_Suc_Cons remove_nth_def take0)
    then show ?thesis using exit assms(1) by (simp add: sched_ok_def in_flight_def)
  next
    case (batch invs aps)
    have "(episodes s)[e := AwaitBatch invs] = [AwaitBatch invs]"
      using sh(1,2) by (metis list_update_code(2))
    then show ?thesis using batch sh(3) by (simp add: sched_ok_def in_flight_def)
  qed
qed

lemma sched_ok_after_batch:
  assumes "sched_ok s" "e < length (episodes s)" "episodes s ! e = AwaitBatch []"
  shows "sched_ok (after_batch e s)"
proof (cases "length (queue s) > 0")
  case True
  note sh = sched_ok_shape [OF assms(1,2)]
  have "(episodes s)[e := Pause (now s + 2000)] = [Pause (now s + 2000)]"
    using sh(1,2) by (metis list_update_code(2))
  then show ?thesis using True assms(1) sh(3) by (simp add: after_batch_def sched_ok_def in_flight_def)
next
  case False
  then show ?thesis using assms sched_ok_resume_loop [of s e] by (simp add: after_batch_def)
qed

lemma settle_fields [simp]:
  "processing (processSingleEmail_settle iv out wq wd s) = processing s"
  "episodes (processSingleEmail_settle iv out wq wd s) = episodes s"
  "queue (processSingleEmail_settle iv out wq wd s) = queue s"
  "now (processSingleEmail_settle iv out wq wd s) = now s"
  "length (heap (processSingleEmail_settle iv out wq wd s)) = length (heap s)"
  by (simp_all add: processSingleEmail_settle_def Let_def split: prod.splits send_outcome.splits)

lemma settle_activeProcesses:
  "length (activeProcesses (processSingleEmail_settle iv out wq wd s)) \<le> length (activeProcesses s)"
  by (simp add: processSingleEmail_settle_def Let_def split: prod.splits send_outcome.splits)

lemma length_remove_nth: "length (remove_nth k xs) \<le> length xs"
  by (simp add: remove_nth_def)

lemma sched_ok_settle:
  assumes "sched_ok s" "settle e k out wq wd s = Some s'"
  shows "sched_ok s'"
proof -
  from assms(2) have el: "e < length (episodes s)" by (simp add: settle_def split: if_splits)
  note sh = sched_ok_shape [OF assms(1) el]
  from assms(2) el obtain invs where ep: "episodes s ! e = AwaitBatch invs" and k: "k < length invs"
    and s': "s' = (processSingleEmail_settle (invs ! k) out wq wd s)
                   \<lparr>episodes := (episodes s)[e := AwaitBatch (remove_nth k invs)]\<rparr>"
    by (auto simp: settle_def Let_def split: episode.splits if_splits)
  have eps: "episodes s = [AwaitBatch invs]" using sh(1,2) ep by simp
  have fl: "length invs \<le> maxConcurrentEmails" using assms(1) eps by (simp add: sched_ok_def in_flight_def)
  have "length (remove_nth k invs) \<le> maxConcurrentEmails" using fl length_remove_nth [of k invs] by simp
  moreover have "length (activeProcesses (processSingleEmail_settle (invs ! k) out wq wd s)) \<le> maxConcurrentEmails"
    using settle_activeProcesses [of "invs ! k" out wq wd s] assms(1) by (simp add: sched_ok_def)
  ultimately show ?thesis using s' eps sh(1,3) by (simp add: sched_ok_def in_flight_def)
qed

lemma sched_ok_enqueue: "sched_ok s \<Longrightarrow> sched_ok (snd (enqueue ed gid w s))"
proof -
  assume a: "sched_ok s"
  let ?item = "\<lparr>job_id = gid, email_type = ed_type ed, email_to = ed_to ed,
                       subject = ed_subject ed, html = ed_html ed, attempts = 0,
                       createdAt = now s, status = Pending, lastError = None,
                       lastAttempt = None\<rparr>"
  let ?s2 = "saveQueue w (s\<lparr>heap := heap s @ [?item], queue := queue s @ [length (heap s)]\<rparr>)"
  have s2: "sched_ok ?s2" using a sched_ok_cong [of ?s2 s] by simp
  have "snd (enqueue ed gid w s) = (if \<not> processing ?s2 then processQueue ?s2 else ?s2)"
    by (simp add: enqueue_def Let_def)
  then show ?thesis using s2 sched_ok_processQueue [OF s2] by simp
qed

lemma sched_ok_interval: "sched_ok s \<Longrightarrow> sched_ok (interval_callback s)"
  by (simp add: interval_callback_def sched_ok_processQueue)

lemma sched_ok_retry_callback: "sched_ok s \<Longrightarrow> sched_ok (retry_callback r w s)"
proof -
  assume a: "sched_ok s"
  let ?s3 = "saveQueue w (s\<lparr>heap := (heap s)[r := (heap s ! r)\<lparr>status := Pending\<rparr>],
                              queue := queue s @ [r]\<rparr>)"
  have s3: "sched_ok ?s3" using a sched_ok_cong [of ?s3 s] by simp
  have "retry_callback r w s = (if \<not> processing ?s3 then processQueue ?s3 else ?s3)"
    by (simp add: retry_callback_def Let_def)
  then show ?thesis using s3 sched_ok_processQueue [OF s3] by simp
qed

lemma sched_ok_clearQueue: "sched_ok s \<Longrightarrow> sched_ok (clearQueue w s)"
  using sched_ok_cong [of "clearQueue w s" s] by (simp add: clearQueue_def)

lemma loadQueue_fields [simp]:
  "processing (loadQueue s) = processing s"
  "activeProcesses (loadQueue s) = activeProcesses s"
  "episodes (loadQueue s) = episodes s"
  "timers (loadQueue s) = timers s"
  "queueFile (loadQueue s) = queueFile s"
  "failedDir (loadQueue s) = failedDir s"
  "now (loadQueue s) = now s"
  by (simp_all add: loadQueue_def split: sum.splits option.splits)

lemma sched_ok_new: "EmailQueue_new qf fd t = Inr s \<Longrightarrow> sched_ok s"
  by (auto simp: EmailQueue_new_def sched_ok_def in_flight_def)

lemma sched_ok_step:
  assumes "sched_ok s" "step ev s = Some s'"
  shows "sched_ok s'"
proof (cases ev)
  case (Enqueue ed gid w)
  then show ?thesis using assms sched_ok_enqueue by auto
next
  case IntervalTick
  then show ?thesis using assms sched_ok_interval by auto
next
  case (Settle e k out wq wd)
  then show ?thesis using assms sched_ok_settle by auto
next
  case (BatchSettled e)
  then show ?thesis using assms sched_ok_after_batch by (auto split: if_splits)
next
  case (PauseElapsed e)
  then show ?thesis using assms sched_ok_resume_loop [of s e]
    by (auto split: if_splits episode.splits)
next
  case (RetryTimer k w)
  let ?s1 = "s\<lparr>timers := remove_nth k (timers s)\<rparr>"
  have "sched_ok ?s1" using assms(1) sched_ok_cong [of ?s1 s] by simp
  then show ?thesis using RetryTimer assms(2) sched_ok_retry_callback [of ?s1]
    by (auto split: if_splits)
next
  case (ClearQueue w)
  then show ?thesis using assms sched_ok_clearQueue by auto
next
  case (Advance dt)
  then show ?thesis using assms sched_ok_cong [of "s\<lparr>now := now s + dt\<rparr>" s] by auto
next
  case Restart
  then show ?thesis using assms(2) sched_ok_new
    by (auto simp: restart_def split: sum.splits)
qed

lemma sched_ok_reach: "reach s0 s \<Longrightarrow> sched_ok s0 \<Longrightarrow> sched_ok s"
  by (induction rule: reach.induct) (auto intro: sched_ok_step)

subsection \<open>Runs and their evaluation\<close>

lemmas eval_defs = enqueue_def saveQueue_def writeFileSync_def processQueue_def loop_head_def
  processSingleEmail_begin_def Let_def maxConcurrentEmails_def List.insert_def deref_def
  settle_def processSingleEmail_settle_def remove_nth_def after_batch_def resume_loop_def
  retry_callback_def interval_callback_def clearQueue_def restart_def EmailQueue_new_def
  loadQueue_def readQueueFile_def saveFailedEmail_def retry_delay_def retryAttempts_def
  retryDelay_def maxRetryDelay_def

lemma new_fresh: "EmailQueue_new Missing (\<lambda>name. Missing) 0 = Inr fresh"
  by (simp add: eval_defs fresh_def)

lemma burst_in_flight: "map_option (\<lambda>s. map snd (in_flight s)) (run burst_trace fresh) = Some [1, 2, 3]"
  by (simp add: burst_trace_def fresh_def example_mail_def eval_defs in_flight_def)

lemma reach_run: "run evs s = Some s' \<Longrightarrow> reach s s'"
proof (induction evs arbitrary: s' rule: rev_induct)
  case Nil
  then show ?case by (simp add: reach_init)
next
  case (snoc ev evs)
  have run_app: "run (xs @ ys) s = (case run xs s of None \<Rightarrow> None | Some s1 \<Rightarrow> run ys s1)" for xs ys s
    by (induction xs arbitrary: s) (auto split: option.splits)
  from snoc.prems obtain s1 where r: "run evs s = Some s1" and st: "step ev s1 = Some s'"
    by (auto simp: run_app split: option.splits)
  from snoc.IH [OF r] st show ?case by (rule reach_step)
qed

lemma run_burst: "run burst_trace fresh = Some after_burst"
  by (simp add: after_burst_def burst_trace_def fresh_def example_mail_def eval_defs)

subsection \<open>References stay unshared\<close>

lemma mset_sub_distinct:
  assumes "mset ys \<subseteq># mset xs" "distinct xs"
  shows "distinct ys"
proof -
  have x: "count (mset xs) a \<le> 1" for a
    using assms(2) by (simp add: distinct_count_atmost_1)
  have y: "count (mset ys) a \<le> 1" for a
    using mset_subset_eq_count [OF assms(1), of a] x [of a] by simp
  have "count (mset ys) a = (if a \<in> set ys then 1 else 0)" for a
  proof (cases "a \<in> set ys")
    case True
    then have "0 < count (mset ys) a" by simp
    with y [of a] have "count (mset ys) a = 1" by linarith
    then show ?thesis using True by simp
  next
    case False
    then show ?thesis by (simp add: count_mset_0_iff)
  qed
  then show ?thesis by (simp add: distinct_count_atmost_1)
qed

lemma mset_remove_nth: "k < length xs \<Longrightarrow> mset (remove_nth k xs) + {#xs ! k#} = mset xs"
  unfolding remove_nth_def
  by (metis add_cancel_right_right id_take_nth_drop mset.simps(2) mset_append
      union_mset_add_mset_right)

lemma mset_drop_take: "mset (drop n xs) + mset (take n xs) = mset xs"
  by (metis add.commute append_take_drop_id mset_append)

lemma refs_ok_mono:
  assumes "refs_ok s" "mset (live_refs s') \<subseteq># mset (live_refs s)" "length (heap s) \<le> length (heap s')"
  shows "refs_ok s'"
proof -
  have d: "distinct (live_refs s')" using assms(1,2) mset_sub_distinct by (auto simp: refs_ok_def)
  have "set (live_refs s') \<subseteq> set (live_refs s)" using assms(2) set_mset_mono by fastforce
  then have "list_all (\<lambda>r. r < length (heap s')) (live_refs s')"
    using assms(1,3) by (fastforce simp: refs_ok_def list_all_iff)
  with d show ?thesis by (simp add: refs_ok_def)
qed

lemma refs_ok_cong:
  "queue s' = queue s \<Longrightarrow> episodes s' = episodes s \<Longrightarrow> timers s' = timers s \<Longrightarrow>
   length (heap s') = length (heap s) \<Longrightarrow> refs_ok s' = refs_ok s"
  by (simp add: refs_ok_def live_refs_def in_flight_def)

lemma refs_ok_processQueue:
  assumes "refs_ok s" "sched_ok s"
  shows "refs_ok (processQueue s)"
proof (cases "processing s")
  case True
  then show ?thesis using assms by (simp add: processQueue_busy)
next
  case False
  then have e: "episodes s = []" using assms by (simp add: sched_ok_def)
  from False show ?thesis
  proof (cases rule: processQueue_cases)
    case idle
    then show ?thesis using assms by simp
  next
    case (batch invs aps)
    have "live_refs (processQueue s) =
            drop (length invs) (queue s) @ take (length invs) (queue s) @ map snd (timers s)"
      using batch(1,4) e by (simp add: live_refs_def in_flight_def)
    moreover have "live_refs s = queue s @ map snd (timers s)"
      using e by (simp add: live_refs_def in_flight_def)
    ultimately have "mset (live_refs (processQueue s)) = mset (live_refs s)"
      using mset_drop_take [of "length invs" "queue s"] by simp
    then show ?thesis using assms(1) batch(1) refs_ok_mono [of s "processQueue s"] by simp
  qed
qed

lemma refs_ok_resume_loop:
  assumes "refs_ok s" "sched_ok s" "e < length (episodes s)" "episode_invs (episodes s ! e) = []"
  shows "refs_ok (resume_loop e s)"
proof -
  note sh = sched_ok_shape [OF assms(2,3)]
  have fl: "in_flight s = []" using sh(1,2) assms(4) by (metis append_Nil2 concat.simps(1,2) in_flight_def list.simps(8,9))
  show ?thesis
  proof (cases rule: resume_loop_cases [of e s])
    case exit
    have "remove_nth e (episodes s) = []"
      using sh(1,2) by (metis append_Nil drop0 drop_Suc_Cons remove_nth_def take0)
    then have "mset (live_refs (resume_loop e s)) = mset (live_refs s)"
      using exit fl by (simp add: live_refs_def in_flight_def)
    then show ?thesis using assms(1) exit refs_ok_mono [of s "resume_loop e s"] by simp
  next
    case (batch invs aps)
    have "(episodes s)[e := AwaitBatch invs] = [AwaitBatch invs]"
      using sh(1,2) by (metis list_update_code(2))
    then have "live_refs (resume_loop e s) =
            drop (length invs) (queue s) @ take (length invs) (queue s) @ map snd (timers s)"
      using batch(1,4) by (simp add: live_refs_def in_flight_def)
    moreover have "live_refs s = queue s @ map snd (timers s)"
      using fl by (simp add: live_refs_def)
    ultimately have "mset (live_refs (resume_loop e s)) = mset (live_refs s)"
      using mset_drop_take [of "length invs" "queue s"] by simp
    then show ?thesis using assms(1) batch(1) refs_ok_mono [of s "resume_loop e s"] by simp
  qed
qed

lemma refs_ok_after_batch:
  assumes "refs_ok s" "sched_ok s" "e < length (episodes s)" "episodes s ! e = AwaitBatch []"
  shows "refs_ok (after_batch e s)"
proof (cases "length (queue s) > 0")
  case True
  note sh = sched_ok_shape [OF assms(2,3)]
  have u: "(episodes s)[e := Pause (now s + 2000)] = [Pause (now s + 2000)]"
    using sh(1,2) by (metis list_update_code(2))
  have "episodes s = [AwaitBatch []]" using sh(1,2) assms(4) by simp
  then have "mset (live_refs (after_batch e s)) = mset (live_refs s)"
    using True u by (simp add: after_batch_def live_refs_def in_flight_def)
  then show ?thesis using True assms(1) refs_ok_mono [of s "after_batch e s"]
    by (simp add: after_batch_def)
next
  case False
  then show ?thesis using assms refs_ok_resume_loop [of s e] by (simp add: after_batch_def)
qed

lemma settle_timers:
  "mset (map snd (timers (processSingleEmail_settle iv out wq wd s)))
     \<subseteq># mset (map snd (timers s)) + {#snd iv#}"
  by (simp add: processSingleEmail_settle_def Let_def split: prod.splits send_outcome.splits)

lemma mset_settle_aux:
  fixes Q A I T T1 :: "'a multiset"
  assumes "A + {#x#} = I" "T1 \<subseteq># T + {#x#}"
  shows "Q + (A + T1) \<subseteq># Q + (I + T)"
  using assms by auto

lemma refs_ok_settle:
  assumes "refs_ok s" "sched_ok s" "settle e k out wq wd s = Some s'"
  shows "refs_ok s'"
proof -
  from assms(3) have el: "e < length (episodes s)" by (simp add: settle_def split: if_splits)
  note sh = sched_ok_shape [OF assms(2) el]
  from assms(3) el obtain invs where ep: "episodes s ! e = AwaitBatch invs" and k: "k < length invs"
    and s': "s' = (processSingleEmail_settle (invs ! k) out wq wd s)
                   \<lparr>episodes := (episodes s)[e := AwaitBatch (remove_nth k invs)]\<rparr>"
    by (auto simp: settle_def Let_def split: episode.splits if_splits)
  have eps: "episodes s = [AwaitBatch invs]" using sh(1,2) ep by simp
  let ?s1 = "processSingleEmail_settle (invs ! k) out wq wd s"
  have a: "mset (map snd (remove_nth k invs)) + {#snd (invs ! k)#} = mset (map snd invs)"
    using mset_remove_nth [of k "map snd invs"] k by (simp add: remove_nth_def take_map drop_map)
  have l': "live_refs s' = queue s @ map snd (remove_nth k invs) @ map snd (timers ?s1)"
    using s' eps sh(1) by (simp add: live_refs_def in_flight_def)
  have l: "live_refs s = queue s @ map snd invs @ map snd (timers s)"
    using eps by (simp add: live_refs_def in_flight_def)
  have "mset (queue s) + (mset (map snd (remove_nth k invs)) + mset (map snd (timers ?s1)))
          \<subseteq># mset (queue s) + (mset (map snd invs) + mset (map snd (timers s)))"
    using a settle_timers [of "invs ! k" out wq wd s] by (rule mset_settle_aux)
  then have "mset (live_refs s') \<subseteq># mset (live_refs s)"
    unfolding l l' by (simp only: mset_append)
  then show ?thesis using assms(1) s' refs_ok_mono [of s s'] by simp
qed

lemma refs_ok_fresh_ref:
  assumes "refs_ok s" "length (heap s') = Suc (length (heap s))"
    "queue s' = queue s @ [length (heap s)]" "episodes s' = episodes s" "timers s' = timers s"
  shows "refs_ok s'"
proof -
  have b: "\<forall>r\<in>set (live_refs s). r < length (heap s)" using assms(1) by (simp add: refs_ok_def list_all_iff)
  then have n: "length (heap s) \<notin> set (live_refs s)" by auto
  have m: "mset (live_refs s') = mset (live_refs s) + {#length (heap s)#}"
    using assms by (simp add: live_refs_def in_flight_def)
  have "mset (live_refs s') = mset (length (heap s) # live_refs s)" using m by simp
  then have "distinct (live_refs s') = distinct (length (heap s) # live_refs s)"
    by (rule mset_eq_imp_distinct_iff)
  then have d: "distinct (live_refs s')" using n assms(1) by (simp add: refs_ok_def)
  have "set (live_refs s') = insert (length (heap s)) (set (live_refs s))"
    using m by (metis mset_eq_setD add_mset_add_single list.simps(15) mset.simps(2))
  then have "\<forall>r\<in>set (live_refs s'). r < length (heap s')" using b assms(2) by auto
  with d show ?thesis by (simp add: refs_ok_def list_all_iff)
qed

lemma refs_ok_enqueue:
  assumes "refs_ok s" "sched_ok s"
  shows "refs_ok (snd (enqueue ed gid w s))"
proof -
  let ?item = "\<lparr>job_id = gid, email_type = ed_type ed, email_to = ed_to ed,
                       subject = ed_subject ed, html = ed_html ed, attempts = 0,
                       createdAt = now s, status = Pending, lastError = None,
                       lastAttempt = None\<rparr>"
  let ?s2 = "saveQueue w (s\<lparr>heap := heap s @ [?item], queue := queue s @ [length (heap s)]\<rparr>)"
  have r2: "refs_ok ?s2" using assms(1) by (rule refs_ok_fresh_ref) simp_all
  have s2: "sched_ok ?s2" using assms(2) sched_ok_cong [of ?s2 s] by simp
  have "snd (enqueue ed gid w s) = (if \<not> processing ?s2 then processQueue ?s2 else ?s2)"
    by (simp add: enqueue_def Let_def)
  then show ?thesis using r2 refs_ok_processQueue [OF r2 s2] by simp
qed

lemma refs_ok_interval: "refs_ok s \<Longrightarrow> sched_ok s \<Longrightarrow> refs_ok (interval_callback s)"
  by (simp add: interval_callback_def refs_ok_processQueue)

lemma refs_ok_retry:
  assumes "refs_ok s" "sched_ok s" "k < length (timers s)"
  shows "refs_ok (retry_callback (snd (timers s ! k)) w (s\<lparr>timers := remove_nth k (timers s)\<rparr>))"
proof -
  let ?r = "snd (timers s ! k)"
  let ?s3 = "saveQueue w (s\<lparr>timers := remove_nth k (timers s),
                              heap := (heap s)[?r := (heap s ! ?r)\<lparr>status := Pending\<rparr>],
                              queue := queue s @ [?r]\<rparr>)"
  have a: "mset (map snd (remove_nth k (timers s))) + {#?r#} = mset (map snd (timers s))"
    using mset_remove_nth [of k "map snd (timers s)"] assms(3)
    by (simp add: remove_nth_def take_map drop_map)
  have "mset (live_refs ?s3) = mset (live_refs s)"
    using a by (simp add: live_refs_def in_flight_def)
  then have r3: "refs_ok ?s3" using assms(1) refs_ok_mono [of s ?s3] by simp
  have s3: "sched_ok ?s3" using assms(2) sched_ok_cong [of ?s3 s] by simp
  have "retry_callback ?r w (s\<lparr>timers := remove_nth k (timers s)\<rparr>)
          = (if \<not> processing ?s3 then processQueue ?s3 else ?s3)"
    by (simp add: retry_callback_def Let_def)
  then show ?thesis using r3 refs_ok_processQueue [OF r3 s3] by simp
qed

lemma refs_ok_clearQueue: "refs_ok s \<Longrightarrow> refs_ok (clearQueue w s)"
  using refs_ok_mono [of s "clearQueue w s"] by (simp add: clearQueue_def live_refs_def in_flight_def)

lemma refs_ok_new: "EmailQueue_new qf fd t = Inr s \<Longrightarrow> refs_ok s"
  by (auto simp: EmailQueue_new_def loadQueue_def readQueueFile_def refs_ok_def live_refs_def
      in_flight_def list_all_iff split: disk_file.splits)

lemma refs_ok_step:
  assumes "refs_ok s" "sched_ok s" "step ev s = Some s'"
  shows "refs_ok s'"
proof (cases ev)
  case (Enqueue ed gid w)
  then show ?thesis using assms refs_ok_enqueue by auto
next
  case IntervalTick
  then show ?thesis using assms refs_ok_interval by auto
next
  case (Settle e k out wq wd)
  then show ?thesis using assms refs_ok_settle by auto
next
  case (BatchSettled e)
  then show ?thesis using assms refs_ok_after_batch by (auto split: if_splits)
next
  case (PauseElapsed e)
  then show ?thesis using assms refs_ok_resume_loop [of s e]
    by (auto split: if_splits episode.splits)
next
  case (RetryTimer k w)
  then show ?thesis using assms refs_ok_retry [of s k w] by (auto split: if_splits)
next
  case (ClearQueue w)
  then show ?thesis using assms refs_ok_clearQueue by auto
next
  case (Advance dt)
  then show ?thesis using assms refs_ok_cong [of "s\<lparr>now := now s + dt\<rparr>" s] by auto
next
  case Restart
  then show ?thesis using assms(3) refs_ok_new
    by (auto simp: restart_def split: sum.splits)
qed

lemma invariants_reach:
  "reach s0 s \<Longrightarrow> sched_ok s0 \<Longrightarrow> refs_ok s0 \<Longrightarrow> sched_ok s \<and> refs_ok s"
  by (induction rule: reach.induct) (auto intro: sched_ok_step refs_ok_step)

subsection \<open>Queued jobs are pending\<close>

lemma pending_okI:
  assumes "\<And>r. r \<in> set (queue s) \<Longrightarrow> status (heap s ! r) = Pending"
    "file_pending (queueFile s)"
    "\<And>r. r \<in> snd ` set (timers s) \<Longrightarrow> status (heap s ! r) = Retrying"
  shows "pending_ok s"
  using assms by (auto simp: pending_ok_def deref_def list_all_iff)

lemma pending_okD:
  assumes "pending_ok s"
  shows "r \<in> set (queue s) \<Longrightarrow> status (heap s ! r) = Pending"
    "file_pending (queueFile s)"
    "r \<in> snd ` set (timers s) \<Longrightarrow> status (heap s ! r) = Retrying"
  using assms by (auto simp: pending_ok_def deref_def list_all_iff)

lemma refs_okD:
  assumes "refs_ok s"
  shows "r \<in> set (live_refs s) \<Longrightarrow> r < length (heap s)" "distinct (live_refs s)"
  using assms by (auto simp: refs_ok_def list_all_iff)

lemma pending_ok_saveQueue:
  assumes "pending_ok s"
  shows "pending_ok (saveQueue w s)"
proof (rule pending_okI)
  show "file_pending (queueFile (saveQueue w s))"
    using assms by (cases w) (simp_all add: saveQueue_queueFile file_pending_def pending_ok_def)
qed (use assms in \<open>auto dest: pending_okD\<close>)

lemma pending_ok_processQueue:
  assumes "pending_ok s"
  shows "pending_ok (processQueue s)"
proof (cases "processing s")
  case True
  then show ?thesis using assms by (simp add: processQueue_busy)
next
  case False
  then show ?thesis
  proof (cases rule: processQueue_cases)
    case idle
    then show ?thesis using assms by simp
  next
    case (batch invs aps)
    show ?thesis
      by (rule pending_okI) (use assms batch(1) in \<open>auto dest: pending_okD in_set_dropD\<close>)
  qed
qed

lemma pending_ok_resume_loop:
  assumes "pending_ok s"
  shows "pending_ok (resume_loop e s)"
proof (cases rule: resume_loop_cases [of e s])
  case exit
  show ?thesis by (rule pending_okI) (use assms exit in \<open>auto dest: pending_okD\<close>)
next
  case (batch invs aps)
  show ?thesis
    by (rule pending_okI) (use assms batch(1) in \<open>auto dest: pending_okD in_set_dropD\<close>)
qed

lemma pending_ok_after_batch:
  assumes "pending_ok s"
  shows "pending_ok (after_batch e s)"
proof (cases "length (queue s) > 0")
  case True
  show ?thesis
    by (rule pending_okI) (use assms True in \<open>auto simp: after_batch_def dest: pending_okD\<close>)
next
  case False
  then show ?thesis using assms pending_ok_resume_loop by (simp add: after_batch_def)
qed

lemma pending_ok_cong:
  "heap s' = heap s \<Longrightarrow> queue s' = queue s \<Longrightarrow> queueFile s' = queueFile s \<Longrightarrow>
   timers s' = timers s \<Longrightarrow> pending_ok s' = pending_ok s"
  by (simp add: pending_ok_def deref_def)

lemma pending_ok_handler:
  assumes "pending_ok s" "r \<notin> set (queue s)" "r \<notin> snd ` set (timers s)" "r < length (heap s)"
  shows "pending_ok (processSingleEmail_settle (pid, r) out wq wd s)"
proof (cases out)
  case Delivered
  let ?s1 = "saveQueue wq s"
  have "pending_ok ?s1" using assms(1) by (rule pending_ok_saveQueue)
  moreover have "processSingleEmail_settle (pid, r) out wq wd s
                   = ?s1\<lparr>activeProcesses := removeAll pid (activeProcesses ?s1)\<rparr>"
    using Delivered by (simp add: processSingleEmail_settle_def)
  ultimately show ?thesis
    using pending_ok_cong [of "?s1\<lparr>activeProcesses := removeAll pid (activeProcesses ?s1)\<rparr>" ?s1]
    by simp
next
  case (SendFailed msg)
  let ?item = "(heap s ! r)\<lparr>attempts := attempts (heap s ! r) + 1, lastError := Some msg,
                              lastAttempt := Some (now s)\<rparr>"
  let ?s2 = "if attempts ?item \<ge> retryAttempts
             then saveFailedEmail wd (?item\<lparr>status := Failed\<rparr>)
                    (s\<lparr>heap := (heap s)[r := ?item\<lparr>status := Failed\<rparr>]\<rparr>)
             else s\<lparr>heap := (heap s)[r := ?item\<lparr>status := Retrying\<rparr>],
                    timers := timers s @ [(now s + retry_delay (attempts (?item\<lparr>status := Retrying\<rparr>)), r)]\<rparr>"
  let ?s1 = "saveQueue wq ?s2"
  have "pending_ok ?s2"
  proof (rule pending_okI)
    fix r' assume "r' \<in> set (queue ?s2)"
    then have "r' \<in> set (queue s)" "r' \<noteq> r" using assms(2) by (auto split: if_splits)
    then show "status (heap ?s2 ! r') = Pending" using assms(1) by (auto dest: pending_okD)
  next
    show "file_pending (queueFile ?s2)" using assms(1) by (auto dest: pending_okD)
  next
    fix r' assume a: "r' \<in> snd ` set (timers ?s2)"
    show "status (heap ?s2 ! r') = Retrying"
    proof (cases "r' = r")
      case True
      then have "\<not> attempts ?item \<ge> retryAttempts" using a assms(3) by (auto split: if_splits)
      then show ?thesis using True assms(4) by simp
    next
      case False
      then have "r' \<in> snd ` set (timers s)" using a by (auto split: if_splits)
      then show ?thesis using False assms(1) by (auto dest: pending_okD)
    qed
  qed
  then have "pending_ok ?s1" by (rule pending_ok_saveQueue)
  moreover have "processSingleEmail_settle (pid, r) out wq wd s
                   = ?s1\<lparr>activeProcesses := removeAll pid (activeProcesses ?s1)\<rparr>"
    using SendFailed by (simp add: processSingleEmail_settle_def Let_def)
  ultimately show ?thesis
    using pending_ok_cong [of "?s1\<lparr>activeProcesses := removeAll pid (activeProcesses ?s1)\<rparr>" ?s1]
    by simp
qed

lemma pending_ok_settle:
  assumes "pending_ok s" "refs_ok s" "sched_ok s" "settle e k out wq wd s = Some s'"
  shows "pending_ok s'"
proof -
  from assms(4) have el: "e < length (episodes s)" by (simp add: settle_def split: if_splits)
  note sh = sched_ok_shape [OF assms(3) el]
  from assms(4) el obtain invs where ep: "episodes s ! e = AwaitBatch invs" and k: "k < length invs"
    and s': "s' = (processSingleEmail_settle (invs ! k) out wq wd s)
                   \<lparr>episodes := (episodes s)[e := AwaitBatch (remove_nth k invs)]\<rparr>"
    by (auto simp: settle_def Let_def split: episode.splits if_splits)
  have eps: "episodes s = [AwaitBatch invs]" using sh(1,2) ep by simp
  obtain pid r where iv: "invs ! k = (pid, r)" by (cases "invs ! k")
  have l: "live_refs s = queue s @ map snd invs @ map snd (timers s)"
    using eps by (simp add: live_refs_def in_flight_def)
  have rin: "r \<in> set (map snd invs)" using k iv by (metis nth_mem image_eqI set_map snd_conv)
  have d: "distinct (queue s @ map snd invs @ map snd (timers s))"
    using refs_okD(2) [OF assms(2)] l by simp
  have 1: "r \<notin> set (queue s)" using d rin by auto
  have 2: "r \<notin> snd ` set (timers s)" using d rin by auto
  have 3: "r < length (heap s)" using refs_okD(1) [OF assms(2), of r] l rin by simp
  let ?s1 = "processSingleEmail_settle (pid, r) out wq wd s"
  have "pending_ok ?s1" using assms(1) 1 2 3 by (rule pending_ok_handler)
  then show ?thesis
    using s' iv pending_ok_cong [of "?s1\<lparr>episodes := (episodes s)[e := AwaitBatch (remove_nth k invs)]\<rparr>" ?s1]
    by simp
qed

lemma pending_ok_enqueue:
  assumes "pending_ok s" "refs_ok s"
  shows "pending_ok (snd (enqueue ed gid w s))"
proof -
  let ?item = "\<lparr>job_id = gid, email_type = ed_type ed, email_to = ed_to ed,
                       subject = ed_subject ed, html = ed_html ed, attempts = 0,
                       createdAt = now s, status = Pending, lastError = None,
                       lastAttempt = None\<rparr>"
  let ?s1 = "s\<lparr>heap := heap s @ [?item], queue := queue s @ [length (heap s)]\<rparr>"
  let ?s2 = "saveQueue w ?s1"
  have b: "r < length (heap s)" if "r \<in> set (queue s) \<or> r \<in> snd ` set (timers s)" for r
    using that refs_okD(1) [OF assms(2), of r] by (auto simp: live_refs_def)
  have "pending_ok ?s1"
  proof (rule pending_okI)
    fix r assume "r \<in> set (queue ?s1)"
    then consider "r \<in> set (queue s)" | "r = length (heap s)" by auto
    then show "status (heap ?s1 ! r) = Pending"
    proof cases
      case 1
      then show ?thesis using b [of r] assms(1) by (auto simp: nth_append dest: pending_okD)
    next
      case 2
      then show ?thesis by simp
    qed
  next
    show "file_pending (queueFile ?s1)" using assms(1) by (auto dest: pending_okD)
  next
    fix r assume "r \<in> snd ` set (timers ?s1)"
    then have "r \<in> snd ` set (timers s)" by simp
    then show "status (heap ?s1 ! r) = Retrying"
      using b [of r] assms(1) by (auto simp: nth_append dest: pending_okD)
  qed
  then have p2: "pending_ok ?s2" by (rule pending_ok_saveQueue)
  have "snd (enqueue ed gid w s) = (if \<not> processing ?s2 then processQueue ?s2 else ?s2)"
    by (simp add: enqueue_def Let_def)
  then show ?thesis using p2 pending_ok_processQueue [OF p2] by simp
qed

lemma pending_ok_interval: "pending_ok s \<Longrightarrow> pending_ok (interval_callback s)"
  by (simp add: interval_callback_def pending_ok_processQueue)

lemma pending_ok_retry:
  assumes "pending_ok s" "refs_ok s" "k < length (timers s)"
  shows "pending_ok (retry_callback (snd (timers s ! k)) w (s\<lparr>timers := remove_nth k (timers s)\<rparr>))"
proof -
  let ?r = "snd (timers s ! k)"
  let ?s2 = "s\<lparr>timers := remove_nth k (timers s),
                heap := (heap s)[?r := (heap s ! ?r)\<lparr>status := Pending\<rparr>],
                queue := queue s @ [?r]\<rparr>"
  let ?s3 = "saveQueue w ?s2"
  have rin: "?r \<in> set (map snd (timers s))" using assms(3) by (metis length_map nth_map nth_mem)
  have rl: "?r < length (heap s)"
    using rin refs_okD(1) [OF assms(2), of ?r] by (auto simp: live_refs_def)
  have "distinct (map snd (timers s))" using refs_okD(2) [OF assms(2)] by (simp add: live_refs_def)
  then have "distinct (take k (map snd (timers s)) @ ?r # drop (Suc k) (map snd (timers s)))"
    using assms(3) by (metis id_take_nth_drop length_map nth_map)
  then have rout: "?r \<notin> snd ` set (remove_nth k (timers s))"
    by (auto simp: remove_nth_def take_map drop_map)
  have sub: "set (remove_nth k (timers s)) \<subseteq> set (timers s)"
    by (auto simp: remove_nth_def dest: in_set_takeD in_set_dropD)
  have "pending_ok ?s2"
  proof (rule pending_okI)
    fix r assume "r \<in> set (queue ?s2)"
    then consider "r \<in> set (queue s)" "r \<noteq> ?r" | "r = ?r" by auto
    then show "status (heap ?s2 ! r) = Pending"
    proof cases
      case 1
      then show ?thesis using assms(1) by (auto dest: pending_okD)
    next
      case 2
      then show ?thesis using rl by simp
    qed
  next
    show "file_pending (queueFile ?s2)" using assms(1) by (auto dest: pending_okD)
  next
    fix r assume a: "r \<in> snd ` set (timers ?s2)"
    then have a': "r \<in> snd ` set (remove_nth k (timers s))" by simp
    then have "r \<noteq> ?r" using rout by blast
    moreover have "r \<in> snd ` set (timers s)" using a' sub by blast
    ultimately show "status (heap ?s2 ! r) = Retrying" using assms(1) by (auto dest: pending_okD)
  qed
  then have p3: "pending_ok ?s3" by (rule pending_ok_saveQueue)
  have "retry_callback ?r w (s\<lparr>timers := remove_nth k (timers s)\<rparr>)
          = (if \<not> processing ?s3 then processQueue ?s3 else ?s3)"
    by (simp add: retry_callback_def Let_def)
  then show ?thesis using p3 pending_ok_processQueue [OF p3] by simp
qed

lemma pending_ok_clearQueue:
  assumes "pending_ok s"
  shows "pending_ok (clearQueue w s)"
proof -
  have "pending_ok (s\<lparr>queue := []\<rparr>)"
    by (rule pending_okI) (use assms in \<open>auto dest: pending_okD\<close>)
  then show ?thesis unfolding clearQueue_def by (rule pending_ok_saveQueue)
qed

lemma pending_ok_new:
  assumes "file_pending qf" "EmailQueue_new qf fd t = Inr s"
  shows "pending_ok s"
proof (cases qf)
  case (Stored js)
  have "map ((!) js) [0..<length js] = js" by (rule map_nth)
  then show ?thesis using assms Stored
    by (auto simp: EmailQueue_new_def loadQueue_def readQueueFile_def pending_ok_def deref_def
        file_pending_def)
qed (use assms in \<open>auto simp: EmailQueue_new_def loadQueue_def readQueueFile_def pending_ok_def
        deref_def file_pending_def\<close>)

lemma pending_ok_step:
  assumes "pending_ok s" "refs_ok s" "sched_ok s" "step ev s = Some s'"
  shows "pending_ok s'"
proof (cases ev)
  case (Enqueue ed gid w)
  then show ?thesis using assms pending_ok_enqueue by auto
next
  case IntervalTick
  then show ?thesis using assms pending_ok_interval by auto
next
  case (Settle e k out wq wd)
  then show ?thesis using assms pending_ok_settle by auto
next
  case (BatchSettled e)
  then show ?thesis using assms pending_ok_after_batch by (auto split: if_splits)
next
  case (PauseElapsed e)
  then show ?thesis using assms pending_ok_resume_loop [of s e]
    by (auto split: if_splits episode.splits)
next
  case (RetryTimer k w)
  then show ?thesis using assms pending_ok_retry [of s k w] by (auto split: if_splits)
next
  case (ClearQueue w)
  then show ?thesis using assms pending_ok_clearQueue by auto
next
  case (Advance dt)
  then show ?thesis using assms pending_ok_cong [of "s\<lparr>now := now s + dt\<rparr>" s] by auto
next
  case Restart
  have "file_pending (queueFile s)" using assms(1) by (auto dest: pending_okD)
  then show ?thesis using Restart assms(4) pending_ok_new [of "queueFile s"]
    by (auto simp: restart_def split: sum.splits)
qed

lemma pending_ok_reach:
  "reach s0 s \<Longrightarrow> sched_ok s0 \<Longrightarrow> refs_ok s0 \<Longrightarrow> pending_ok s0 \<Longrightarrow>
   sched_ok s \<and> refs_ok s \<and> pending_ok s"
  by (induction rule: reach.induct) (auto intro: sched_ok_step refs_ok_step pending_ok_step)

subsection \<open>Facts used by the claims\<close>

lemma fresh_invariants: "sched_ok fresh \<and> refs_ok fresh \<and> pending_ok fresh"
  using sched_ok_new [OF new_fresh] refs_ok_new [OF new_fresh] pending_ok_new [OF _ new_fresh]
  by (simp add: file_pending_def)

lemma run_failure: "run failure_trace fresh = Some after_failure"
  by (simp add: after_failure_def failure_trace_def fresh_def example_mail_def eval_defs)

lemma retry_delay_spec: "of_nat (retry_delay a) = (min (5000 * 2 powi (int a - 1)) 300000 :: rat)"
proof (cases a)
  case 0
  then show ?thesis by (simp add: retry_delay_def retryDelay_def maxRetryDelay_def power_int_minus)
next
  case (Suc n)
  have "(of_nat (min (5000 * 2 ^ n) 300000) :: rat) = min (5000 * 2 ^ n) 300000"
    by (simp add: of_nat_min)
  then show ?thesis using Suc
    by (simp add: retry_delay_def retryDelay_def maxRetryDelay_def power_int_def)
qed

lemma run_one: "run [Enqueue example_mail ''a'' WriteOk] fresh = Some one_in_flight"
  by (simp add: one_in_flight_def fresh_def example_mail_def eval_defs)

lemma retry_delay_le: "retry_delay a \<le> 300000"
  by (simp add: retry_delay_def maxRetryDelay_def)

lemma handler_failed:
  assumes "r < length (heap s)"
  shows "heap (processSingleEmail_settle (pid, r) (SendFailed msg) wq wd s) ! r =
           (heap s ! r)\<lparr>attempts := attempts (heap s ! r) + 1, lastError := Some msg,
                         lastAttempt := Some (now s),
                         status := (if attempts (heap s ! r) + 1 \<ge> retryAttempts then Failed else Retrying)\<rparr>"
    and "timers (processSingleEmail_settle (pid, r) (SendFailed msg) wq wd s) =
           (if attempts (heap s ! r) + 1 \<ge> retryAttempts then timers s
            else timers s @ [(now s + retry_delay (attempts (heap s ! r) + 1), r)])"
  using assms by (simp_all add: processSingleEmail_settle_def Let_def)

subsection \<open>The attempt counter\<close>

lemma processQueue_heap [simp]: "heap (processQueue s) = heap s"
proof (cases "processing s")
  case True
  then show ?thesis by (simp add: processQueue_busy)
next
  case False
  then show ?thesis by (cases rule: processQueue_cases) simp_all
qed

lemma resume_loop_heap [simp]: "heap (resume_loop e s) = heap s"
  by (cases rule: resume_loop_cases [of e s]) simp_all

lemma after_batch_heap [simp]: "heap (after_batch e s) = heap s"
  by (simp add: after_batch_def)

lemma handler_attempts:
  assumes "r < length (heap s)"
  shows "attempts (heap (processSingleEmail_settle iv out wq wd s) ! r) =
           attempts (heap s ! r) + (if snd iv = r \<and> out \<noteq> Delivered then 1 else 0)"
proof (cases "snd iv = r")
  case True
  then show ?thesis using assms
    by (cases iv; cases out) (simp_all add: processSingleEmail_settle_def Let_def)
next
  case False
  then show ?thesis
    by (cases iv; cases out) (simp_all add: processSingleEmail_settle_def Let_def)
qed

lemma step_attempts:
  assumes "step ev s = Some s'" "ev \<noteq> Restart" "r < length (heap s)"
  shows "attempts (heap s' ! r) =
           attempts (heap s ! r) +
           (case attempt_of ev s of
              Some (r', out) \<Rightarrow> if r' = r \<and> out \<noteq> Delivered then 1 else 0
            | None \<Rightarrow> 0)"
    and "length (heap s) \<le> length (heap s')"
proof -
  show "length (heap s) \<le> length (heap s')"
    using assms(1,2)
    by (cases ev)
       (auto simp: enqueue_def Let_def interval_callback_def settle_def retry_callback_def
          clearQueue_def split: if_splits episode.splits)
  show "attempts (heap s' ! r) =
           attempts (heap s ! r) +
           (case attempt_of ev s of
              Some (r', out) \<Rightarrow> if r' = r \<and> out \<noteq> Delivered then 1 else 0
            | None \<Rightarrow> 0)"
  proof (cases ev)
    case (Enqueue ed gid w)
    then show ?thesis using assms(1,3)
      by (auto simp: enqueue_def Let_def attempt_of_def nth_append)
  next
    case (Settle e k out wq wd)
    from assms(1) Settle obtain invs where el: "e < length (episodes s)"
      and ep: "episodes s ! e = AwaitBatch invs" and k: "k < length invs"
      and s': "s' = (processSingleEmail_settle (invs ! k) out wq wd s)
                     \<lparr>episodes := (episodes s)[e := AwaitBatch (remove_nth k invs)]\<rparr>"
      by (auto simp: settle_def Let_def split: episode.splits if_splits)
    have "attempt_of ev s = Some (snd (invs ! k), out)"
      using Settle el ep k by (simp add: attempt_of_def)
    then show ?thesis using s' handler_attempts [OF assms(3), of "invs ! k" out wq wd] by simp
  next
    case (RetryTimer k w)
    then show ?thesis using assms(1,3)
      by (cases "snd (timers s ! k) = r")
         (auto simp: retry_callback_def Let_def attempt_of_def split: if_splits)
  next
    case Restart
    then show ?thesis using assms(2) by simp
  qed (use assms(1) in \<open>auto simp: attempt_of_def interval_callback_def clearQueue_def
         split: if_splits episode.splits\<close>)
qed

lemma enqueue_heap:
  "heap (snd (enqueue ed gid w s)) =
     heap s @ [\<lparr>job_id = gid, email_type = ed_type ed, email_to = ed_to ed,
                subject = ed_subject ed, html = ed_html ed, attempts = 0,
                createdAt = now s, status = Pending, lastError = None, lastAttempt = None\<rparr>]"
  by (simp add: enqueue_def Let_def)

lemma attempts_in_le:
  "attempts_in (\<lambda>out. out \<noteq> Delivered) r evs s \<le> attempts_in (\<lambda>out. True) r evs s"
  by (induction evs arbitrary: s) (auto split: option.splits intro: le_SucI)

lemma run_attempts:
  assumes "run evs s = Some s'" and "Restart \<notin> set evs" and "r < length (heap s)"
  shows "attempts (heap s' ! r) = attempts (heap s ! r) + failed_attempts r evs s"
  using assms
proof (induction evs arbitrary: s)
  case Nil
  then show ?case by (simp add: failed_attempts_def)
next
  case (Cons ev evs)
  from Cons.prems(1) obtain s1 where st: "step ev s = Some s1" and rn: "run evs s1 = Some s'"
    by (auto split: option.splits)
  have ne: "ev \<noteq> Restart" "Restart \<notin> set evs" using Cons.prems(2) by auto
  note sa = step_attempts [OF st ne(1) Cons.prems(3)]
  have "r < length (heap s1)" using sa(2) Cons.prems(3) by simp
  from Cons.IH [OF rn ne(2) this] sa(1) st show ?case
    by (auto simp: failed_attempts_def split: option.splits)
qed

lemma run_two_failures: "run two_failures one_in_flight = Some both_failed"
  by (simp add: both_failed_def two_failures_def one_in_flight_def fresh_def example_mail_def
      eval_defs)

section \<open>The claims\<close>

text \<open>
  C1, amended. \<open>enqueue\<close> never fails: whatever the write to the queue file does, the
  call returns the id of the new job, and the job is in the store. The write decides
  only what the file holds afterwards: the queue with the new job at its end when it
  succeeds, the old content or a truncated file when it fails; \<open>saveQueue\<close> catches the
  exception and logs it.
\<close>

theorem enqueue_never_fails:
  "(let emailItem = \<lparr>job_id = gid, email_type = ed_type ed, email_to = ed_to ed,
                      subject = ed_subject ed, html = ed_html ed, attempts = 0,
                      createdAt = now s, status = Pending, lastError = None,
                      lastAttempt = None\<rparr>;
        s' = snd (enqueue ed gid w s)
    in fst (enqueue ed gid w s) = Inr gid \<and>
       heap s' = heap s @ [emailItem] \<and>
       queueFile s' =
         (case w of
            WriteOk \<Rightarrow> Stored (map (\<lambda>r. (heap s @ [emailItem]) ! r) (queue s) @ [emailItem])
          | WriteFailKeep \<Rightarrow> queueFile s
          | WriteFailTruncate \<Rightarrow> Garbled))"
proof -
  have "queueFile (processQueue x) = queueFile x" for x
  proof (cases "processing x")
    case True
    then show ?thesis by (simp add: processQueue_busy)
  next
    case False
    then show ?thesis by (cases rule: processQueue_cases) simp_all
  qed
  then show ?thesis
    by (cases w) (simp_all add: enqueue_def Let_def saveQueue_queueFile deref_def)
qed

theorem enqueue_never_fails_witness:
  "fst (enqueue example_mail ''a'' WriteFailTruncate fresh) = Inr ''a'' \<and>
   heap (snd (enqueue example_mail ''a'' WriteFailTruncate fresh)) =
     [\<lparr>job_id = ''a'', email_type = ''test-email'', email_to = ''admin'', subject = ''Test'',
       html = ''Hello'', attempts = 0, createdAt = 0, status = Pending, lastError = None,
       lastAttempt = None\<rparr>] \<and>
   queueFile (snd (enqueue example_mail ''a'' WriteFailTruncate fresh)) = Garbled"
  using enqueue_never_fails [of "''a''" example_mail fresh WriteFailTruncate]
  by (simp add: Let_def example_mail_def fresh_def)

text \<open>
  The claim as it stands fails when the write fails: \<open>writeFileSync\<close> throws, nothing is
  on disk, and the caller still gets the id.
\<close>

theorem enqueue_swallows_write_failure:
  "fst (writeFileSync WriteFailKeep ([] :: job list) Missing) = Some (Error ''write failed'') \<and>
   fst (enqueue example_mail ''a'' WriteFailKeep fresh) = Inr ''a'' \<and>
   queueFile (snd (enqueue example_mail ''a'' WriteFailKeep fresh)) = Missing"
  by (simp add: fresh_def example_mail_def eval_defs)

text \<open>
  C2. Two runs that end in a restart. In the first the job waits for its retry when the
  process dies; in the second the job is in flight when another one is enqueued, and
  the process dies. In both the job has been enqueued with a successful write and is
  neither sent nor dead, the queue file no longer holds it, and it is gone after the
  restart.
\<close>

theorem restart_loses_jobs:
  "map_option (\<lambda>s. (map job_id (deref s (map snd (timers s))), queueFile s))
     (run [Enqueue example_mail ''a'' WriteOk,
           Settle 0 0 (SendFailed ''timeout'') WriteOk WriteOk] fresh)
     = Some ([''a''], Stored []) \<and>
   map_option (\<lambda>s. (deref s (queue s), in_flight s, timers s))
     (run [Enqueue example_mail ''a'' WriteOk,
           Settle 0 0 (SendFailed ''timeout'') WriteOk WriteOk, Restart] fresh)
     = Some ([], [], []) \<and>
   map_option (\<lambda>s. (map job_id (deref s (map snd (in_flight s))),
                      map_disk_file (map job_id) (queueFile s)))
     (run [Enqueue example_mail ''a'' WriteOk, Enqueue example_mail ''b'' WriteOk] fresh)
     = Some ([''a''], Stored [''b'']) \<and>
   map_option (\<lambda>s. (map job_id (deref s (queue s)), in_flight s, timers s))
     (run [Enqueue example_mail ''a'' WriteOk, Enqueue example_mail ''b'' WriteOk, Restart] fresh)
     = Some ([''b''], [], [])"
  by (simp add: fresh_def example_mail_def eval_defs in_flight_def)

text \<open>
  C3, amended. While the process runs, the counter of a job grows by exactly one with
  every delivery attempt of that job that fails and is changed by nothing else: a
  successful attempt leaves it as it is, and it never decreases. A job starts at 0 when
  it is enqueued, so after \<open>N\<close> failed attempts it has \<open>attempts = N\<close>; the failed
  attempts are at most the completed ones.
\<close>

theorem attempts_count_failures:
  assumes "run evs s = Some s'" and "Restart \<notin> set evs"
  shows "(r < length (heap s) \<longrightarrow>
            attempts (heap s' ! r) = attempts (heap s ! r) + failed_attempts r evs s) \<and>
         (case evs of
            Enqueue ed gid w # evs' \<Rightarrow>
              attempts (heap s' ! length (heap s)) = failed_attempts (length (heap s)) evs s
          | _ \<Rightarrow> True) \<and>
         failed_attempts r evs s \<le> completed_attempts r evs s"
proof (intro conjI)
  show "r < length (heap s) \<longrightarrow>
          attempts (heap s' ! r) = attempts (heap s ! r) + failed_attempts r evs s"
    using assms run_attempts by blast
  show "failed_attempts r evs s \<le> completed_attempts r evs s"
    by (simp add: failed_attempts_def completed_attempts_def attempts_in_le)
  show "case evs of
          Enqueue ed gid w # evs' \<Rightarrow>
            attempts (heap s' ! length (heap s)) = failed_attempts (length (heap s)) evs s
        | _ \<Rightarrow> True"
  proof (cases evs)
    case Nil
    then show ?thesis by simp
  next
    case (Cons ev evs')
    show ?thesis
    proof (cases ev)
      case (Enqueue ed gid w)
      let ?s1 = "snd (enqueue ed gid w s)"
      have rn: "run evs' ?s1 = Some s'" using assms(1) Cons Enqueue by simp
      have nr: "Restart \<notin> set evs'" using assms(2) Cons by simp
      have l: "length (heap s) < length (heap ?s1)" by (simp add: enqueue_heap)
      have a0: "attempts (heap ?s1 ! length (heap s)) = 0" by (simp add: enqueue_heap)
      have "failed_attempts (length (heap s)) evs s = failed_attempts (length (heap s)) evs' ?s1"
        using Cons Enqueue by (simp add: failed_attempts_def attempt_of_def)
      then show ?thesis using run_attempts [OF rn nr l] a0 Cons Enqueue by simp
    qed (use Cons in simp_all)
  qed
qed

theorem attempts_count_failures_witness:
  "run two_failures one_in_flight = Some both_failed \<and> Restart \<notin> set two_failures \<and>
   (0::nat) < length (heap one_in_flight) \<and>
   attempts (heap both_failed ! 0) =
     attempts (heap one_in_flight ! 0) + failed_attempts 0 two_failures one_in_flight \<and>
   attempts (heap both_failed ! length (heap one_in_flight)) =
     failed_attempts (length (heap one_in_flight)) two_failures one_in_flight \<and>
   failed_attempts 0 two_failures one_in_flight \<le> completed_attempts 0 two_failures one_in_flight \<and>
   attempts (heap both_failed ! 0) = 1 \<and> attempts (heap both_failed ! 1) = 1"
proof -
  have h: "(0::nat) < length (heap one_in_flight)"
    by (simp add: one_in_flight_def fresh_def example_mail_def eval_defs)
  have n: "Restart \<notin> set two_failures" by (simp add: two_failures_def)
  have v: "attempts (heap both_failed ! 0) = 1" "attempts (heap both_failed ! 1) = 1"
    by (simp_all add: both_failed_def two_failures_def one_in_flight_def fresh_def example_mail_def
        eval_defs)
  have "case two_failures of
          Enqueue ed gid w # evs' \<Rightarrow>
            attempts (heap both_failed ! length (heap one_in_flight)) =
              failed_attempts (length (heap one_in_flight)) two_failures one_in_flight
        | _ \<Rightarrow> True"
    using attempts_count_failures [OF run_two_failures n, of 0] by blast
  then have e: "attempts (heap both_failed ! length (heap one_in_flight)) =
                  failed_attempts (length (heap one_in_flight)) two_failures one_in_flight"
    by (simp add: two_failures_def)
  from attempts_count_failures [OF run_two_failures n, of 0] run_two_failures n h e v
  show ?thesis by blast
qed

text \<open>
  The claim as it stands fails on a delivery that succeeds: one completed attempt, and
  the counter is still 0.
\<close>

theorem delivered_attempt_not_counted:
  "completed_attempts 0 [Settle 0 0 Delivered WriteOk WriteOk] one_in_flight = 1 \<and>
   map_option (\<lambda>s. attempts (heap s ! 0)) (run [Settle 0 0 Delivered WriteOk WriteOk] one_in_flight)
     = Some 0"
  by (simp add: one_in_flight_def fresh_def example_mail_def eval_defs completed_attempts_def
      attempt_of_def)

text \<open>
  C4. When a delivery attempt has failed, what the handler does depends on the
  incremented attempt count \<open>a\<close> alone and is the decision of the specification's
  \<open>nextDecision(a)\<close>: from 3 attempts on the job is marked failed and gets no timer;
  below, it is marked for retry and a timer is set \<open>min(5000 * 2^(a-1), 300000)\<close> ms
  ahead, which is 5 s after the first attempt, 10 s after the second, and never more
  than 300 s.
\<close>

theorem retry_decision:
  assumes "r < length (heap s)"
  shows "let a = attempts (heap s ! r) + 1;
             s' = processSingleEmail_settle (pid, r) (SendFailed msg) wq wd s
         in attempts (heap s' ! r) = a \<and>
            (a \<ge> 3 \<longrightarrow> spec_nextDecision a = Quarantine \<and> status (heap s' ! r) = Failed \<and>
                       timers s' = timers s) \<and>
            (a < 3 \<longrightarrow> spec_nextDecision a = Retry (of_nat (retry_delay a)) \<and>
                       status (heap s' ! r) = Retrying \<and>
                       timers s' = timers s @ [(now s + retry_delay a, r)]) \<and>
            retry_delay a \<le> 300000 \<and> retry_delay 1 = 5000 \<and> retry_delay 2 = 10000"
proof -
  have "spec_nextDecision a = (if a \<ge> 3 then Quarantine else Retry (of_nat (retry_delay a)))" for a
    by (simp only: spec_nextDecision_def retry_delay_spec)
  moreover have "retry_delay 1 = 5000" "retry_delay 2 = 10000"
    by (simp_all add: retry_delay_def retryDelay_def maxRetryDelay_def)
  ultimately show ?thesis
    using handler_failed [OF assms, of pid msg wq wd] retry_delay_le
    by (simp add: Let_def retryAttempts_def)
qed

theorem retry_decision_witness:
  "(0::nat) < length (heap one_in_flight) \<and>
   (let a = attempts (heap one_in_flight ! 0) + 1;
        s' = processSingleEmail_settle ((''a'', 0), 0) (SendFailed ''timeout'') WriteOk WriteOk one_in_flight
    in attempts (heap s' ! 0) = a \<and>
       (a \<ge> 3 \<longrightarrow> spec_nextDecision a = Quarantine \<and> status (heap s' ! 0) = Failed \<and>
                  timers s' = timers one_in_flight) \<and>
       (a < 3 \<longrightarrow> spec_nextDecision a = Retry (of_nat (retry_delay a)) \<and>
                  status (heap s' ! 0) = Retrying \<and>
                  timers s' = timers one_in_flight @ [(now one_in_flight + retry_delay a, 0)]) \<and>
       retry_delay a \<le> 300000 \<and> retry_delay 1 = 5000 \<and> retry_delay 2 = 10000)"
proof -
  have h: "(0::nat) < length (heap one_in_flight)"
    by (simp add: one_in_flight_def fresh_def example_mail_def eval_defs)
  show ?thesis
    using h retry_decision [OF h, of "(''a'', 0)" "''timeout''" WriteOk WriteOk] by simp
qed

text \<open>
  C5. The job fails for the first time: it is marked \<open>Retrying\<close> and a timer is set 5 s
  ahead, but \<open>processQueue\<close> has taken the job out of the queue array, so the
  \<open>saveQueue\<close> that follows writes an empty list: the job marked for retry is not on disk.
\<close>

theorem retrying_job_not_persisted:
  "status (heap one_failed ! 0) = Retrying \<and> attempts (heap one_failed ! 0) = 1 \<and>
   timers one_failed = [(5000, 0)] \<and> queue one_failed = [] \<and>
   queueFile one_failed = Stored []"
  by (simp add: one_failed_def one_in_flight_def fresh_def example_mail_def eval_defs)

text \<open>
  C6. In every state the queue can reach from its construction, at most
  \<open>maxConcurrentEmails = 3\<close> jobs are in flight, however many were enqueued; the set
  \<open>activeProcesses\<close> that \<open>getStatus\<close> reports is bounded likewise.
\<close>

theorem in_flight_bound:
  assumes "EmailQueue_new qf fd t = Inr s0" and "reach s0 s"
  shows "length (in_flight s) \<le> maxConcurrentEmails \<and> maxConcurrentEmails = 3 \<and>
         st_activeProcesses (getStatus s) \<le> 3"
proof -
  have "sched_ok s" using assms sched_ok_new sched_ok_reach by blast
  then show ?thesis by (simp add: sched_ok_def getStatus_def maxConcurrentEmails_def)
qed

theorem in_flight_bound_witness:
  "EmailQueue_new Missing (\<lambda>name. Missing) 0 = Inr fresh \<and> reach fresh after_burst \<and>
   length (in_flight after_burst) \<le> maxConcurrentEmails \<and> maxConcurrentEmails = 3 \<and>
   st_activeProcesses (getStatus after_burst) \<le> 3 \<and> length (in_flight after_burst) = 3"
proof -
  have "map snd (in_flight after_burst) = [1, 2, 3]"
    using burst_in_flight run_burst by simp
  then have "length (in_flight after_burst) = 3"
    by (metis length_map length_Cons list.size(3) numeral_3_eq_3)
  then show ?thesis
    using in_flight_bound [OF new_fresh reach_run [OF run_burst]] new_fresh reach_run [OF run_burst]
    by simp
qed

text \<open>
  C7. At most one episode of \<open>processQueue\<close> exists at any time, and the flag \<open>processing\<close>
  is set exactly while it exists. While it exists, every trigger leaves the episodes as
  they are: a call of \<open>processQueue\<close> and the interval callback change nothing at all,
  \<open>enqueue\<close> and the retry callback only append their job. No job object is held by two
  running invocations of \<open>processSingleEmail\<close>.
\<close>

theorem single_episode:
  assumes "EmailQueue_new qf fd t = Inr s0" and "reach s0 s"
  shows "length (episodes s) \<le> 1 \<and> (processing s \<longleftrightarrow> episodes s \<noteq> []) \<and>
         (episodes s \<noteq> [] \<longrightarrow>
            processQueue s = s \<and> interval_callback s = s \<and>
            episodes (snd (enqueue ed gid w s)) = episodes s \<and>
            episodes (retry_callback r w s) = episodes s) \<and>
         distinct (map snd (in_flight s))"
proof -
  have i: "sched_ok s \<and> refs_ok s"
    using assms sched_ok_new refs_ok_new invariants_reach by blast
  then have e: "length (episodes s) \<le> 1" "processing s \<longleftrightarrow> episodes s \<noteq> []"
    by (auto simp: sched_ok_def split: if_splits)
  have d: "distinct (map snd (in_flight s))"
    using i by (simp add: refs_ok_def live_refs_def)
  have "processQueue s = s \<and> interval_callback s = s \<and>
        episodes (snd (enqueue ed gid w s)) = episodes s \<and>
        episodes (retry_callback r w s) = episodes s" if "processing s"
    using that by (simp add: processQueue_busy interval_callback_def enqueue_def retry_callback_def Let_def)
  then show ?thesis using e d by blast
qed

theorem single_episode_witness:
  "EmailQueue_new Missing (\<lambda>name. Missing) 0 = Inr fresh \<and> reach fresh after_burst \<and>
   length (episodes after_burst) \<le> 1 \<and> processing after_burst \<and> episodes after_burst \<noteq> [] \<and>
   processQueue after_burst = after_burst \<and> interval_callback after_burst = after_burst \<and>
   episodes (snd (enqueue example_mail ''e'' WriteOk after_burst)) = episodes after_burst \<and>
   episodes (retry_callback 0 WriteOk after_burst) = episodes after_burst \<and>
   distinct (map snd (in_flight after_burst))"
proof -
  have r: "reach fresh after_burst" by (rule reach_run [OF run_burst])
  have p: "processing after_burst"
    by (simp add: after_burst_def burst_trace_def fresh_def example_mail_def eval_defs)
  show ?thesis
    using single_episode [OF new_fresh r, of example_mail "''e''" WriteOk 0] new_fresh r p by simp
qed

text \<open>
  C8, amended. The constructor always returns. It reads the queue file and nothing else:
  the queue holds the jobs of the file in order, or is empty when the file is absent or
  cannot be parsed; nothing runs yet. The files of failed e-mails are not read: with
  any other directory of them the object in memory is the same.
\<close>

theorem startup_reads_queue_file_only:
  "(\<exists>s. EmailQueue_new qf fd t = Inr s \<and>
        deref s (queue s) = (case qf of Stored js \<Rightarrow> js | Garbled \<Rightarrow> [] | Missing \<Rightarrow> []) \<and>
        heap s = deref s (queue s) \<and> \<not> processing s \<and> episodes s = [] \<and> timers s = [] \<and>
        queueFile s = qf \<and> failedDir s = fd) \<and>
   map_sum id memory (EmailQueue_new qf fd t) = map_sum id memory (EmailQueue_new qf fd' t)"
proof -
  have "map ((!) js) [0..<length js] = js" for js :: "job list" by (rule map_nth)
  then show ?thesis
    by (cases qf)
       (simp_all add: EmailQueue_new_def loadQueue_def readQueueFile_def deref_def memory_def)
qed

theorem startup_reads_queue_file_only_witness:
  "(\<exists>s. EmailQueue_new Garbled dead_letter_dir 0 = Inr s \<and>
        deref s (queue s) = [] \<and> heap s = deref s (queue s) \<and> \<not> processing s \<and>
        episodes s = [] \<and> timers s = [] \<and> queueFile s = Garbled \<and>
        failedDir s = dead_letter_dir) \<and>
   map_sum id memory (EmailQueue_new Garbled dead_letter_dir 0)
     = map_sum id memory (EmailQueue_new Garbled (\<lambda>name. Missing) 0)"
  using startup_reads_queue_file_only [of Garbled dead_letter_dir 0 "\<lambda>name. Missing"]
  by simp

text \<open>
  The claim as it stands fails on the dead-letter set: with a record and an unparsable
  file in the directory of failed e-mails, the object in memory is the one of an empty
  directory, and holds no job.
\<close>

theorem startup_skips_dead_letters:
  "dead_letter_dir ''x'' = Stored dead_job \<and> dead_letter_dir ''y'' = Garbled \<and>
   EmailQueue_new Missing dead_letter_dir 0 = Inr (fresh\<lparr>failedDir := dead_letter_dir\<rparr>) \<and>
   memory (fresh\<lparr>failedDir := dead_letter_dir\<rparr>) = memory fresh \<and>
   heap (fresh\<lparr>failedDir := dead_letter_dir\<rparr>) = []"
  by (simp add: dead_letter_dir_def fresh_def memory_def eval_defs)

text \<open>
  C9, amended. \<open>clearQueue\<close> empties the queue array, whose jobs are the pending ones
  that have not been dispatched, and rewrites the queue file with the empty list when
  the write succeeds. After it, no place holds a reference to a job that was in the
  array. Jobs in flight and jobs that wait for a retry timer are not in the array: the
  invocations and the timers are as before.
\<close>

theorem clearQueue_drops_queued_only:
  assumes "refs_ok s"
  shows "queue (clearQueue w s) = [] \<and>
         queueFile (clearQueue w s) =
           (case w of WriteOk \<Rightarrow> Stored [] | WriteFailKeep \<Rightarrow> queueFile s
            | WriteFailTruncate \<Rightarrow> Garbled) \<and>
         list_all (\<lambda>r. r \<notin> set (live_refs (clearQueue w s))) (queue s) \<and>
         in_flight (clearQueue w s) = in_flight s \<and> timers (clearQueue w s) = timers s \<and>
         episodes (clearQueue w s) = episodes s \<and> processing (clearQueue w s) = processing s \<and>
         heap (clearQueue w s) = heap s"
proof -
  have "distinct (queue s @ map snd (in_flight s) @ map snd (timers s))"
    using assms by (simp add: refs_ok_def live_refs_def)
  then have "list_all (\<lambda>r. r \<notin> set (map snd (in_flight s) @ map snd (timers s))) (queue s)"
    by (auto simp: list_all_iff)
  then show ?thesis
    by (cases w) (simp_all add: clearQueue_def saveQueue_queueFile live_refs_def in_flight_def deref_def)
qed

theorem clearQueue_drops_queued_only_witness:
  "refs_ok after_failure \<and> queue after_failure = [1] \<and>
   queue (clearQueue WriteOk after_failure) = [] \<and>
   queueFile (clearQueue WriteOk after_failure) = Stored [] \<and>
   list_all (\<lambda>r. r \<notin> set (live_refs (clearQueue WriteOk after_failure))) (queue after_failure) \<and>
   in_flight (clearQueue WriteOk after_failure) = in_flight after_failure \<and>
   timers (clearQueue WriteOk after_failure) = timers after_failure \<and>
   timers after_failure = [(5000, 0)]"
proof -
  have r: "refs_ok after_failure"
    using pending_ok_reach [OF reach_run [OF run_failure]] fresh_invariants by simp
  have q: "queue after_failure = [1]" "timers after_failure = [(5000, 0)]"
    by (simp_all add: after_failure_def failure_trace_def fresh_def example_mail_def eval_defs)
  show ?thesis using clearQueue_drops_queued_only [OF r, of WriteOk] r q by simp
qed

text \<open>
  The claim as it stands fails on a job that waits for its retry: the queue is cleared
  while the job is held by the timer only, and when the timer fires the job is put back
  and dispatched again.
\<close>

theorem cleared_job_is_retried:
  "map_option (\<lambda>s. (queue s, map snd (timers s), status (heap s ! 0)))
     (run (take 4 clear_trace) fresh) = Some ([], [0], Retrying) \<and>
   map_option (\<lambda>s. (map snd (in_flight s), attempts (heap s ! 0), status (heap s ! 0), queueFile s = Stored (deref s [0])))
     (run clear_trace fresh) = Some ([0], 1, Pending, True)"
  by (simp add: clear_trace_def fresh_def example_mail_def eval_defs in_flight_def)

text \<open>
  C10. In every reachable state the jobs in the queue array are pending, and so are the
  jobs in the queue file; the jobs with status \<open>Retrying\<close> are the ones held by retry
  timers, outside the queue. So \<open>getStatus\<close> reports no retrying job and counts every
  queued job as pending. The queue file found at the first start is absent, unparsable
  or one that holds pending jobs, as every file the queue writes does.
\<close>

theorem queued_jobs_pending:
  assumes "file_pending qf" and "EmailQueue_new qf fd t = Inr s0" and "reach s0 s"
  shows "list_all (\<lambda>item. status item = Pending) (deref s (queue s)) \<and>
         file_pending (queueFile s) \<and>
         list_all (\<lambda>item. status item = Retrying) (deref s (map snd (timers s))) \<and>
         retryingEmails (getStatus s) = 0 \<and>
         pendingEmails (getStatus s) = queueLength (getStatus s)"
proof -
  have "pending_ok s"
    using assms sched_ok_new refs_ok_new pending_ok_new pending_ok_reach by blast
  then have p: "list_all (\<lambda>item. status item = Pending) (deref s (queue s))"
    and f: "file_pending (queueFile s)"
    and t: "list_all (\<lambda>item. status item = Retrying) (deref s (map snd (timers s)))"
    by (simp_all add: pending_ok_def)
  have "filter (\<lambda>item. status item = Retrying) (deref s (queue s)) = []"
    using p by (auto simp: filter_empty_conv list_all_iff)
  moreover have "filter (\<lambda>item. status item = Pending) (deref s (queue s)) = deref s (queue s)"
    using p by (auto simp: filter_id_conv list_all_iff)
  ultimately show ?thesis using p f t by (simp add: getStatus_def deref_def)
qed

theorem queued_jobs_pending_witness:
  "file_pending Missing \<and> EmailQueue_new Missing (\<lambda>name. Missing) 0 = Inr fresh \<and>
   reach fresh after_failure \<and>
   list_all (\<lambda>item. status item = Pending) (deref after_failure (queue after_failure)) \<and>
   file_pending (queueFile after_failure) \<and>
   list_all (\<lambda>item. status item = Retrying) (deref after_failure (map snd (timers after_failure))) \<and>
   retryingEmails (getStatus after_failure) = 0 \<and>
   pendingEmails (getStatus after_failure) = queueLength (getStatus after_failure)"
proof -
  have f: "file_pending (Missing :: job list disk_file)" by (simp add: file_pending_def)
  have r: "reach fresh after_failure" by (rule reach_run [OF run_failure])
  show ?thesis using queued_jobs_pending [OF f new_fresh r] f new_fresh r by simp
qed

end
